theory Spec2Isabelle
  imports Complex_Main "HOL-Library.Word"
begin

text \<open>
  \<^verbatim>\<open>alias_sample\<close> is a Go port of the alias method with Vose's construction.
  \<^verbatim>\<open>InitWithSeed\<close> turns a slice of weights into two tables, \<^verbatim>\<open>probability\<close> and
  \<^verbatim>\<open>alias\<close>; \<^verbatim>\<open>Next\<close> draws a column and a real number and returns the column or its
  alias. This theory embeds both functions, statement by statement, and proves what the
  specification says about them. The packages that the code imports (the deque and
  \<^verbatim>\<open>math/rand\<close>) and the arithmetic of \<^verbatim>\<open>float64\<close> are not part of the repository:
  the deque is a list, the random source and the arithmetic are parameters.
\<close>

section \<open>Failures\<close>

text \<open>
  \<^verbatim>\<open>InitWithSeed\<close> returns a \<^verbatim>\<open>*SampleError\<close> for an empty input. Everything else
  that can go wrong in the Go code is a run-time panic: a slice index out of range,
  \<^verbatim>\<open>PopBack\<close> on an empty deque, \<^verbatim>\<open>Intn\<close> with a non-positive argument. All of
  them are values of one type, so that every function of the model is total and a
  panic is a result that a theorem can exclude.
\<close>

datatype failure =
    SampleError string
  | IndexOutOfRange
  | PopBackEmpty
  | IntnInvalidArgument

definition and_then :: "failure + 'a \<Rightarrow> ('a \<Rightarrow> failure + 'b) \<Rightarrow> failure + 'b" where
  "and_then m f = (case m of Inl e \<Rightarrow> Inl e | Inr x \<Rightarrow> f x)"

section \<open>Slices and deques\<close>

text \<open>
  A Go slice is a list; an index is a Go \<^verbatim>\<open>int\<close>, modelled as \<open>int\<close> (the values
  that occur are bounded by the length of a slice, so 64-bit wrap-around plays no role).
  Reading or writing outside \<open>[0, len)\<close> panics.
\<close>

definition index :: "'a list \<Rightarrow> int \<Rightarrow> failure + 'a" where
  "index xs i = (if 0 \<le> i \<and> i < int (length xs) then Inr (xs ! nat i) else Inl IndexOutOfRange)"

definition assign :: "'a list \<Rightarrow> int \<Rightarrow> 'a \<Rightarrow> failure + 'a list" where
  "assign xs i v =
     (if 0 \<le> i \<and> i < int (length xs) then Inr (xs[nat i := v]) else Inl IndexOutOfRange)"

text \<open>
  \<^verbatim>\<open>deque.Deque[int]\<close> comes from an external package. The code uses \<^verbatim>\<open>PushBack\<close>,
  \<^verbatim>\<open>PopBack\<close> and \<^verbatim>\<open>Len\<close> only; the deque is a list whose last element is the back.
\<close>

definition PushBack :: "int list \<Rightarrow> int \<Rightarrow> int list" where
  "PushBack q x = q @ [x]"

definition PopBack :: "int list \<Rightarrow> failure + (int \<times> int list)" where
  "PopBack q = (if q = [] then Inl PopBackEmpty else Inr (last q, butlast q))"

definition Len :: "int list \<Rightarrow> int" where
  "Len q = int (length q)"

section \<open>Floating-point arithmetic as a parameter\<close>

text \<open>
  The code computes in \<^verbatim>\<open>float64\<close>. The operations it uses are the fields of a record,
  and every function of the model takes that record as its first argument: a theorem
  stated for an arbitrary \<open>A\<close> holds whatever the arithmetic does (rounding, NaN,
  infinities). The theorems that depend on the arithmetic are stated for the
  interpretation \<open>ieee\<close> below.
\<close>

record 'f float_ops =
  fzero :: 'f
  fone :: 'f
  fadd :: "'f \<Rightarrow> 'f \<Rightarrow> 'f"
  fsub :: "'f \<Rightarrow> 'f \<Rightarrow> 'f"
  fmul :: "'f \<Rightarrow> 'f \<Rightarrow> 'f"
  fdiv :: "'f \<Rightarrow> 'f \<Rightarrow> 'f"
  fge :: "'f \<Rightarrow> 'f \<Rightarrow> bool"
  flt :: "'f \<Rightarrow> 'f \<Rightarrow> bool"
  float64_of :: "int \<Rightarrow> 'f"

section \<open>The pseudo-random source as a parameter\<close>

text \<open>
  \<^verbatim>\<open>math/rand\<close> is external as well. Its four entry points that the code calls are the
  fields of a record over a generator state \<open>'g\<close>; each returns the value drawn and the
  next state. \<^verbatim>\<open>*rand.Rand\<close> is that state together with the list of draws made so
  far, which is kept only to state how many draws a call makes and in which order.
\<close>

record ('f, 'g) rand_ops =
  NewSource :: "64 word \<Rightarrow> 'g"
  Int63_raw :: "'g \<Rightarrow> 64 word \<times> 'g"
  Intn_raw :: "'g \<Rightarrow> int \<Rightarrow> int \<times> 'g"
  Float64_raw :: "'g \<Rightarrow> 'f \<times> 'g"

datatype draw = DrawIntn int | DrawFloat64

record 'g Rand =
  src :: 'g
  drawn :: "draw list"

definition New :: "('f, 'g) rand_ops \<Rightarrow> 64 word \<Rightarrow> 'g Rand" where
  "New R seed = \<lparr>src = NewSource R seed, drawn = []\<rparr>"

definition Intn :: "('f, 'g) rand_ops \<Rightarrow> 'g Rand \<Rightarrow> int \<Rightarrow> failure + (int \<times> 'g Rand)" where
  "Intn R r n =
     (if n \<le> 0 then Inl IntnInvalidArgument
      else (let (v, g) = Intn_raw R (src r) n
            in Inr (v, \<lparr>src = g, drawn = drawn r @ [DrawIntn n]\<rparr>)))"

definition Float64 :: "('f, 'g) rand_ops \<Rightarrow> 'g Rand \<Rightarrow> 'f \<times> 'g Rand" where
  "Float64 R r =
     (let (u, g) = Float64_raw R (src r)
      in (u, \<lparr>src = g, drawn = drawn r @ [DrawFloat64]\<rparr>))"

section \<open>The sampler and the state of its construction\<close>

text \<open>
  \<^verbatim>\<open>alias\<close> is a keyword of Isabelle, so the field is \<open>alias_tab\<close>. The two tables
  are the common part of the finished sampler and of the local state of
  \<^verbatim>\<open>InitWithSeed\<close>, which adds the working copy \<^verbatim>\<open>probs2\<close> and the two worklists.
\<close>

record 'f AliasTable =
  probability :: "'f list"
  alias_tab :: "int list"

record ('f, 'g) AliasSampler = "'f AliasTable" +
  seed :: "64 word"
  rand :: "'g Rand"

record 'f vose = "'f AliasTable" +
  probs2 :: "'f list"
  small :: "int list"
  large :: "int list"

section \<open>InitWithSeed\<close>

subsection \<open>Normalisation\<close>

definition total :: "'f float_ops \<Rightarrow> 'f list \<Rightarrow> 'f" where
  "total A probs = foldl (fadd A) (fzero A) probs"

definition normalize :: "'f float_ops \<Rightarrow> 'f list \<Rightarrow> 'f list" where
  "normalize A probs = map (\<lambda>p. fdiv A p (total A probs)) probs"

definition average :: "'f float_ops \<Rightarrow> nat \<Rightarrow> 'f" where
  "average A n = fdiv A (fone A) (float64_of A (int n))"

definition start :: "'f float_ops \<Rightarrow> 'f list \<Rightarrow> 'f vose" where
  "start A probs =
     \<lparr>probability = replicate (length probs) (fzero A),
      alias_tab = replicate (length probs) 0,
      probs2 = normalize A probs,
      small = [],
      large = []\<rparr>"

subsection \<open>Populating the worklists\<close>

function populate :: "'f float_ops \<Rightarrow> 'f \<Rightarrow> int \<Rightarrow> int \<Rightarrow> 'f vose \<Rightarrow> failure + 'f vose" where
  "populate A avg n i st =
     (if i < n then
        and_then (index (probs2 st) i) (\<lambda>p.
          if fge A p avg
          then populate A avg n (i + 1) (st\<lparr>large := PushBack (large st) i\<rparr>)
          else populate A avg n (i + 1) (st\<lparr>small := PushBack (small st) i\<rparr>))
      else Inr st)"
  by pat_completeness auto
termination
  by (relation "measure (\<lambda>(A, avg, n, i, st). nat (n - i))") auto

declare populate.simps [simp del]

subsection \<open>The pairing loop\<close>

definition pair_step :: "'f float_ops \<Rightarrow> int \<Rightarrow> 'f \<Rightarrow> 'f vose \<Rightarrow> failure + 'f vose" where
  "pair_step A n avg st =
     and_then (PopBack (small st)) (\<lambda>(less, small1).
     and_then (PopBack (large st)) (\<lambda>(more, large1).
     and_then (index (probs2 st) less) (\<lambda>pl.
     and_then (assign (probability st) less (fmul A pl (float64_of A n))) (\<lambda>probability1.
     and_then (assign (alias_tab st) less more) (\<lambda>alias1.
     and_then (index (probs2 st) more) (\<lambda>pm.
     and_then (assign (probs2 st) more (fsub A (fadd A pm pl) avg)) (\<lambda>probs21.
     and_then (index probs21 more) (\<lambda>pm1.
       if fge A pm1 (fdiv A (fone A) (float64_of A (int (length probs21))))
       then Inr \<lparr>probability = probability1, alias_tab = alias1, probs2 = probs21,
                 small = small1, large = PushBack large1 more\<rparr>
       else Inr \<lparr>probability = probability1, alias_tab = alias1, probs2 = probs21,
                 small = PushBack small1 more, large = large1\<rparr>))))))))"

function pair_loop :: "'f float_ops \<Rightarrow> int \<Rightarrow> 'f \<Rightarrow> 'f vose \<Rightarrow> failure + 'f vose" where
  "pair_loop A n avg st =
     (if \<not> (Len (small st) = 0) \<and> \<not> (Len (large st) = 0)
      then (case pair_step A n avg st of
              Inl e \<Rightarrow> Inl e
            | Inr st' \<Rightarrow> pair_loop A n avg st')
      else Inr st)"
  by pat_completeness auto
termination
proof (relation "measure (\<lambda>(A, n, avg, st). length (small st) + length (large st))")
  show "wf (measure (\<lambda>(A :: 'f float_ops, n :: int, avg :: 'f, st :: 'f vose).
              length (small st) + length (large st)))"
    by simp
next
  fix A :: "'f float_ops" and n :: int and avg :: 'f and st st' :: "'f vose"
  assume ne: "\<not> Len (small st) = 0 \<and> \<not> Len (large st) = 0"
    and step: "pair_step A n avg st = Inr st'"
  from step have "length (small st') + length (large st') + 1 =
      length (small st) + length (large st)"
    by (auto simp: pair_step_def and_then_def PopBack_def PushBack_def index_def assign_def
             split: if_splits sum.splits prod.splits)
  then show "((A, n, avg, st'), (A, n, avg, st)) \<in>
      measure (\<lambda>(A, n, avg, st). length (small st) + length (large st))"
    by simp
qed

declare pair_loop.simps [simp del]

subsection \<open>Draining the worklists\<close>

function drain :: "'f float_ops \<Rightarrow> int list \<Rightarrow> 'f list \<Rightarrow> failure + (int list \<times> 'f list)" where
  "drain A q pr =
     (if Len q \<noteq> 0 then
        (case PopBack q of
           Inl e \<Rightarrow> Inl e
         | Inr (i, q') \<Rightarrow>
             (case assign pr i (fone A) of
                Inl e \<Rightarrow> Inl e
              | Inr pr' \<Rightarrow> drain A q' pr'))
      else Inr (q, pr))"
  by pat_completeness auto
termination
  by (relation "measure (\<lambda>(A, q, pr). length q)")
     (auto simp: PopBack_def split: if_splits)

declare drain.simps [simp del]

subsection \<open>The whole construction\<close>

definition populated :: "'f float_ops \<Rightarrow> 'f list \<Rightarrow> failure + 'f vose" where
  "populated A probs =
     populate A (average A (length probs)) (int (length probs)) 0 (start A probs)"

definition paired :: "'f float_ops \<Rightarrow> 'f list \<Rightarrow> failure + 'f vose" where
  "paired A probs =
     and_then (populated A probs)
       (pair_loop A (int (length probs)) (average A (length probs)))"

definition InitWithSeed ::
  "'f float_ops \<Rightarrow> ('f, 'g) rand_ops \<Rightarrow> 'f list \<Rightarrow> 64 word \<Rightarrow> failure + ('f, 'g) AliasSampler" where
  "InitWithSeed A R probs seed' =
     (let rand' = New R seed' in
      if length probs = 0 then Inl (SampleError ''no probabilities provided'')
      else
        and_then (paired A probs) (\<lambda>st.
        and_then (drain A (small st) (probability st)) (\<lambda>(small', probability').
        and_then (drain A (large st) probability') (\<lambda>(large', probability'').
          Inr \<lparr>probability = probability'', alias_tab = alias_tab st,
               seed = seed', rand = rand'\<rparr>))))"

text \<open>
  \<^verbatim>\<open>Init\<close> takes its seed from the global source of \<^verbatim>\<open>math/rand\<close>, whose state is an
  argument here and is returned advanced.
\<close>

definition Init ::
  "'f float_ops \<Rightarrow> ('f, 'g) rand_ops \<Rightarrow> 'g \<Rightarrow> 'f list \<Rightarrow> (failure + ('f, 'g) AliasSampler) \<times> 'g" where
  "Init A R global probs =
     (let (seed', global') = Int63_raw R global
      in (InitWithSeed A R probs seed', global'))"

section \<open>Next\<close>

definition Next ::
  "'f float_ops \<Rightarrow> ('f, 'g) rand_ops \<Rightarrow> ('f, 'g) AliasSampler \<Rightarrow>
     failure + (int \<times> ('f, 'g) AliasSampler)" where
  "Next A R s =
     and_then (Intn R (rand s) (int (length (probability s)))) (\<lambda>(column, r1).
       let (u, r2) = Float64 R r1 in
       and_then (index (probability s) column) (\<lambda>p.
         let coinToss = flt A u p in
         if coinToss then Inr (column, s\<lparr>rand := r2\<rparr>)
         else and_then (index (alias_tab s) column) (\<lambda>a. Inr (a, s\<lparr>rand := r2\<rparr>))))"

text \<open>
  \<open>k\<close> calls of \<^verbatim>\<open>Next\<close> in a row on the same sampler, as in the loop of the test;
  the indices returned, in order, and the sampler after the last call.
\<close>

fun NextN ::
  "'f float_ops \<Rightarrow> ('f, 'g) rand_ops \<Rightarrow> nat \<Rightarrow> ('f, 'g) AliasSampler \<Rightarrow>
     failure + (int list \<times> ('f, 'g) AliasSampler)" where
  "NextN A R 0 s = Inr ([], s)"
| "NextN A R (Suc k) s =
     (case Next A R s of
        Inl e \<Rightarrow> Inl e
      | Inr (r, s') \<Rightarrow>
          (case NextN A R k s' of
             Inl e \<Rightarrow> Inl e
           | Inr (rs, s'') \<Rightarrow> Inr (r # rs, s'')))"

section \<open>The arithmetic of float64\<close>

text \<open>
  The interpretation \<open>ieee\<close> is IEEE 754 binary64 as Go computes with it: every finite
  result is the exact result rounded to the nearest value of the format, ties to the even
  significand (\<open>rne\<close>), with gradual underflow and with overflow to infinity, and NaN
  and the infinities follow the rules of the standard. A finite value is the real number
  it stands for, so \<open>Fin x\<close> is a value of the format only when \<open>rne x = Fin x\<close>; every
  operation returns such values. The sign of zero is not modelled: a zero divisor counts
  as \<open>+0\<close> (the two divisors of the program, the sum started at \<open>+0\<close> and the length,
  are never \<open>-0\<close>), and \<open>-0\<close> and \<open>+0\<close> compare equal.

  The values of the format are the multiples \<open>m * 2^e\<close> of a power of two with
  \<open>\<bar>m\<bar> < 2^53\<close> and \<open>e \<ge> -1074\<close>. In units of \<open>2^-1074\<close> the spacing around \<open>y \<ge> 0\<close>
  is \<open>2^e\<close> with \<open>e = bitlen \<lfloor>y\<rfloor> - 53\<close> (0 for subnormal numbers and the first
  binade); \<open>grid\<close> rounds \<open>y\<close> to the nearest multiple of its spacing, \<open>nearest\<close>
  does so for a real number of either sign, and \<open>rne\<close> returns an infinity when the
  rounded magnitude reaches \<open>2^1024\<close>.
\<close>

datatype float64 = NaN | PInf | NInf | Fin real

function bitlen :: "int \<Rightarrow> nat" where
  "bitlen n = (if n \<le> 0 then 0 else Suc (bitlen (n div 2)))"
  by pat_completeness auto
termination
  by (relation "measure nat") auto

declare bitlen.simps [simp del]

definition rhe :: "real \<Rightarrow> int" where
  "rhe q =
     (let f = \<lfloor>q\<rfloor>; r = q - of_int f
      in if r < 1 / 2 then f
         else if 1 / 2 < r then f + 1
         else if even f then f else f + 1)"

definition grid :: "real \<Rightarrow> real" where
  "grid y = (let e = bitlen \<lfloor>y\<rfloor> - 53 in of_int (rhe (y / 2 ^ e)) * 2 ^ e)"

definition emin :: nat where
  "emin = 1074"

definition top :: real where
  "top = 2 ^ 1024"

definition nearest :: "real \<Rightarrow> real" where
  "nearest x =
     (if x < 0 then - (grid (- x * 2 ^ emin) / 2 ^ emin)
      else grid (x * 2 ^ emin) / 2 ^ emin)"

definition rne :: "real \<Rightarrow> float64" where
  "rne x =
     (let v = nearest x
      in if top \<le> v then PInf
         else if v \<le> - top then NInf
         else Fin v)"

fun is_neg :: "float64 \<Rightarrow> bool" where
  "is_neg NInf = True"
| "is_neg (Fin x) = (x < 0)"
| "is_neg _ = False"

fun neg64 :: "float64 \<Rightarrow> float64" where
  "neg64 NaN = NaN"
| "neg64 PInf = NInf"
| "neg64 NInf = PInf"
| "neg64 (Fin x) = Fin (- x)"

fun add64 :: "float64 \<Rightarrow> float64 \<Rightarrow> float64" where
  "add64 (Fin x) (Fin y) = rne (x + y)"
| "add64 NaN _ = NaN"
| "add64 _ NaN = NaN"
| "add64 PInf NInf = NaN"
| "add64 NInf PInf = NaN"
| "add64 PInf _ = PInf"
| "add64 _ PInf = PInf"
| "add64 NInf _ = NInf"
| "add64 _ NInf = NInf"

definition sub64 :: "float64 \<Rightarrow> float64 \<Rightarrow> float64" where
  "sub64 a b = add64 a (neg64 b)"

fun mul64 :: "float64 \<Rightarrow> float64 \<Rightarrow> float64" where
  "mul64 (Fin x) (Fin y) = rne (x * y)"
| "mul64 NaN _ = NaN"
| "mul64 _ NaN = NaN"
| "mul64 a b =
     (if a = Fin 0 \<or> b = Fin 0 then NaN
      else if is_neg a \<noteq> is_neg b then NInf
      else PInf)"

fun div64 :: "float64 \<Rightarrow> float64 \<Rightarrow> float64" where
  "div64 (Fin x) (Fin y) =
     (if y = 0 then (if x = 0 then NaN else if 0 < x then PInf else NInf)
      else rne (x / y))"
| "div64 NaN _ = NaN"
| "div64 _ NaN = NaN"
| "div64 (Fin x) _ = Fin 0"
| "div64 a (Fin y) = (if is_neg a \<noteq> (y < 0) then NInf else PInf)"
| "div64 _ _ = NaN"

fun ge64 :: "float64 \<Rightarrow> float64 \<Rightarrow> bool" where
  "ge64 NaN _ = False"
| "ge64 _ NaN = False"
| "ge64 (Fin x) (Fin y) = (y \<le> x)"
| "ge64 PInf _ = True"
| "ge64 _ NInf = True"
| "ge64 _ _ = False"

definition lt64 :: "float64 \<Rightarrow> float64 \<Rightarrow> bool" where
  "lt64 a b \<longleftrightarrow> a \<noteq> NaN \<and> b \<noteq> NaN \<and> \<not> ge64 a b"

definition ieee :: "float64 float_ops" where
  "ieee =
     \<lparr>fzero = Fin 0, fone = Fin 1,
      fadd = add64, fsub = sub64, fmul = mul64, fdiv = div64,
      fge = ge64, flt = lt64,
      float64_of = (\<lambda>n. rne (real_of_int n))\<rparr>"

text \<open>
  \<open>2^1023\<close> is a value of binary64; the sum of two of them is \<open>2^1024\<close>, beyond the
  largest finite value.
\<close>

definition huge :: real where
  "huge = 2 ^ 1023"

text \<open>
  A deterministic source for concrete runs: the state is a counter, \<^verbatim>\<open>Intn\<close> returns
  the counter modulo its argument and \<^verbatim>\<open>Float64\<close> cycles through 0, 1/4, 1/2, 3/4.
\<close>

definition counter :: "(float64, nat) rand_ops" where
  "counter =
     \<lparr>NewSource = unat,
      Int63_raw = (\<lambda>g. (word_of_nat (g mod 2 ^ 63), Suc g)),
      Intn_raw = (\<lambda>g n. (int g mod n, Suc g)),
      Float64_raw = (\<lambda>g. (Fin (real (g mod 4) / 4), Suc g))\<rparr>"

text \<open>
  The contract of \<^verbatim>\<open>Intn\<close> in \<^verbatim>\<open>math/rand\<close>: for a positive argument the result is
  in \<open>[0, n)\<close>.
\<close>

definition Intn_in_range :: "('f, 'g) rand_ops \<Rightarrow> bool" where
  "Intn_in_range R \<longleftrightarrow>
     (\<forall>g n. 0 < n \<longrightarrow> 0 \<le> fst (Intn_raw R g n) \<and> fst (Intn_raw R g n) < n)"

section \<open>Notions used in the statements\<close>

definition worklist :: "'f vose \<Rightarrow> int set" where
  "worklist st = set (small st) \<union> set (large st)"

text \<open>
  The part of the loop invariant that needs no arithmetic: the slices keep their
  length, the worklists hold distinct indices in range whose alias entry is still 0,
  every alias entry is in range, the worklists are classified by the comparison with the
  average, and an index that has left the worklists has its cutoff.
\<close>

definition vose_inv :: "'f float_ops \<Rightarrow> nat \<Rightarrow> 'f vose \<Rightarrow> bool" where
  "vose_inv A n st \<longleftrightarrow>
     length (probs2 st) = n \<and> length (probability st) = n \<and> length (alias_tab st) = n \<and>
     distinct (small st @ large st) \<and>
     (\<forall>i \<in> worklist st. 0 \<le> i \<and> i < int n \<and> alias_tab st ! nat i = 0) \<and>
     (\<forall>a \<in> set (alias_tab st). 0 \<le> a \<and> a < int n) \<and>
     (\<forall>i \<in> set (small st). \<not> fge A (probs2 st ! nat i) (average A n)) \<and>
     (\<forall>i \<in> set (large st). fge A (probs2 st ! nat i) (average A n)) \<and>
     (\<forall>i < n. int i \<notin> worklist st \<longrightarrow>
        probability st ! i = fmul A (probs2 st ! i) (float64_of A (int n)))"

text \<open>
  The state after one iteration of the pairing loop that does not panic, as a function.
\<close>

definition pair_next :: "'f float_ops \<Rightarrow> nat \<Rightarrow> 'f vose \<Rightarrow> 'f vose" where
  "pair_next A n st =
     (let less = last (small st);
          more = last (large st);
          w = fsub A (fadd A (probs2 st ! nat more) (probs2 st ! nat less)) (average A n)
      in \<lparr>probability =
             (probability st)[nat less := fmul A (probs2 st ! nat less) (float64_of A (int n))],
          alias_tab = (alias_tab st)[nat less := more],
          probs2 = (probs2 st)[nat more := w],
          small = (if fge A w (average A n) then butlast (small st)
                   else butlast (small st) @ [more]),
          large = (if fge A w (average A n) then butlast (large st) @ [more]
                   else butlast (large st))\<rparr>)"

text \<open>The state that the populating loop returns, written out.\<close>

definition populated_state :: "'f float_ops \<Rightarrow> 'f list \<Rightarrow> 'f vose" where
  "populated_state A probs =
     (start A probs)\<lparr>
        small := map int (filter (\<lambda>j. \<not> fge A (normalize A probs ! j) (average A (length probs)))
                   [0..<length probs]),
        large := map int (filter (\<lambda>j. fge A (normalize A probs ! j) (average A (length probs)))
                   [0..<length probs])\<rparr>"

text \<open>The number of iterations of the pairing loop, by the recursion of the loop.\<close>

function iterations :: "'f float_ops \<Rightarrow> int \<Rightarrow> 'f \<Rightarrow> 'f vose \<Rightarrow> nat" where
  "iterations A n avg st =
     (if \<not> (Len (small st) = 0) \<and> \<not> (Len (large st) = 0)
      then (case pair_step A n avg st of
              Inl e \<Rightarrow> 0
            | Inr st' \<Rightarrow> Suc (iterations A n avg st'))
      else 0)"
  by pat_completeness auto
termination
proof (relation "measure (\<lambda>(A, n, avg, st). length (small st) + length (large st))")
  show "wf (measure (\<lambda>(A :: 'f float_ops, n :: int, avg :: 'f, st :: 'f vose).
              length (small st) + length (large st)))"
    by simp
next
  fix A :: "'f float_ops" and n :: int and avg :: 'f and st st' :: "'f vose"
  assume ne: "\<not> Len (small st) = 0 \<and> \<not> Len (large st) = 0"
    and step: "pair_step A n avg st = Inr st'"
  from step have "length (small st') + length (large st') + 1 =
      length (small st) + length (large st)"
    by (auto simp: pair_step_def and_then_def PopBack_def PushBack_def index_def assign_def
             split: if_splits sum.splits prod.splits)
  then show "((A, n, avg, st'), (A, n, avg, st)) \<in>
      measure (\<lambda>(A, n, avg, st). length (small st) + length (large st))"
    by simp
qed

declare iterations.simps [simp del]

text \<open>
  The probability mass that a table routes to outcome \<open>k\<close>: column \<open>k\<close> is drawn with
  probability \<open>1/n\<close> and keeps the draw with probability \<open>pr ! k\<close>; every column
  \<open>i\<close> whose alias is \<open>k\<close> is drawn with probability \<open>1/n\<close> and passes the draw on
  with probability \<open>1 - pr ! i\<close>.
\<close>

definition mass :: "real list \<Rightarrow> int list \<Rightarrow> nat \<Rightarrow> real" where
  "mass pr al k =
     pr ! k / real (length pr) +
     (\<Sum>i<length pr. if al ! i = int k then (1 - pr ! i) / real (length pr) else 0)"

text \<open>
  The invariant of the pairing loop under \<open>ieee\<close>: every working weight is a
  non-negative value of the format or \<open>+Inf\<close>, and every cutoff is in \<open>[0, 1]\<close>.
\<close>

definition nonneg64 :: "float64 \<Rightarrow> bool" where
  "nonneg64 a \<longleftrightarrow> (case a of Fin x \<Rightarrow> 0 \<le> x \<and> rne x = Fin x | PInf \<Rightarrow> True | _ \<Rightarrow> False)"

definition unit_range :: "float64 \<Rightarrow> bool" where
  "unit_range a \<longleftrightarrow> (case a of Fin x \<Rightarrow> 0 \<le> x \<and> x \<le> 1 | _ \<Rightarrow> False)"

definition bounded_inv :: "nat \<Rightarrow> float64 vose \<Rightarrow> bool" where
  "bounded_inv n st \<longleftrightarrow>
     (\<forall>i < n. nonneg64 (probs2 st ! i)) \<and> (\<forall>i < n. unit_range (probability st ! i))"

section \<open>The pairing loop keeps its invariant\<close>

lemma pair_step_next:
  assumes "vose_inv A n st" "small st \<noteq> []" "large st \<noteq> []"
  shows "pair_step A (int n) (average A n) st = Inr (pair_next A n st)"
proof -
  let ?less = "last (small st)" and ?more = "last (large st)"
  have l: "?less \<in> worklist st" and m: "?more \<in> worklist st"
    using assms(2,3) by (simp_all add: worklist_def)
  from assms(1) l have lr: "0 \<le> ?less" "?less < int n"
    unfolding vose_inv_def by blast+
  from assms(1) m have mr: "0 \<le> ?more" "?more < int n"
    unfolding vose_inv_def by blast+
  from assms(1) have len: "length (probs2 st) = n" "length (probability st) = n"
    "length (alias_tab st) = n"
    unfolding vose_inv_def by blast+
  show ?thesis
    using lr mr len assms(2,3)
    by (simp add: pair_step_def pair_next_def and_then_def PopBack_def PushBack_def
        index_def assign_def average_def Let_def)
qed

lemma last_notin_butlast: "distinct xs \<Longrightarrow> xs \<noteq> [] \<Longrightarrow> last xs \<notin> set (butlast xs)"
  by (induction xs) (auto dest: in_set_butlastD)

lemma set_butlast_last: "xs \<noteq> [] \<Longrightarrow> set xs = insert (last xs) (set (butlast xs))"
  by (metis append_butlast_last_id list.simps(15) rotate1.simps(2) set_rotate1)

lemma vose_inv_pair_next:
  assumes I: "vose_inv A n st" and s: "small st \<noteq> []" and g: "large st \<noteq> []"
  shows "vose_inv A n (pair_next A n st)"
proof -
  define less where "less = last (small st)"
  define more where "more = last (large st)"
  define w where
    "w = fsub A (fadd A (probs2 st ! nat more) (probs2 st ! nat less)) (average A n)"
  define st' where "st' = pair_next A n st"
  have len: "length (probs2 st) = n" "length (probability st) = n" "length (alias_tab st) = n"
    and dist: "distinct (small st @ large st)"
    and wl: "\<And>i. i \<in> worklist st \<Longrightarrow> 0 \<le> i \<and> i < int n \<and> alias_tab st ! nat i = 0"
    and al: "\<And>a. a \<in> set (alias_tab st) \<Longrightarrow> 0 \<le> a \<and> a < int n"
    and sm: "\<And>i. i \<in> set (small st) \<Longrightarrow> \<not> fge A (probs2 st ! nat i) (average A n)"
    and lg: "\<And>i. i \<in> set (large st) \<Longrightarrow> fge A (probs2 st ! nat i) (average A n)"
    and dn: "\<And>i. i < n \<Longrightarrow> int i \<notin> worklist st \<Longrightarrow>
               probability st ! i = fmul A (probs2 st ! i) (float64_of A (int n))"
    using I unfolding vose_inv_def by blast+
  have less_in: "less \<in> set (small st)" and more_in: "more \<in> set (large st)"
    using s g by (simp_all add: less_def more_def)
  have ss: "set (small st) = insert less (set (butlast (small st)))"
    and sl: "set (large st) = insert more (set (butlast (large st)))"
    using s g by (simp_all add: less_def more_def set_butlast_last)
  have d1: "distinct (small st)" and d2: "distinct (large st)"
    and d3: "set (small st) \<inter> set (large st) = {}"
    using dist by auto
  have less_nb: "less \<notin> set (butlast (small st))" and more_nb: "more \<notin> set (butlast (large st))"
    using d1 d2 s g by (simp_all add: less_def more_def last_notin_butlast)
  have lm: "less \<noteq> more" using less_in more_in d3 by auto
  have less_nl: "less \<notin> set (large st)" and more_ns: "more \<notin> set (small st)"
    using less_in more_in d3 by auto
  have lr: "0 \<le> less" "less < int n" and mr: "0 \<le> more" "more < int n"
    using wl less_in more_in by (auto simp: worklist_def)
  have nlm: "nat less \<noteq> nat more" using lm lr mr by simp
  have fields:
    "probability st' =
       (probability st)[nat less := fmul A (probs2 st ! nat less) (float64_of A (int n))]"
    "alias_tab st' = (alias_tab st)[nat less := more]"
    "probs2 st' = (probs2 st)[nat more := w]"
    "small st' = (if fge A w (average A n) then butlast (small st)
                  else butlast (small st) @ [more])"
    "large st' = (if fge A w (average A n) then butlast (large st) @ [more]
                  else butlast (large st))"
    by (simp_all add: st'_def pair_next_def Let_def less_def more_def w_def)
  have wl': "worklist st' = worklist st - {less}"
    using ss sl less_nb more_nb less_nl more_ns lm
    by (auto simp: worklist_def fields dest: in_set_butlastD)
  have c1: "length (probs2 st') = n \<and> length (probability st') = n \<and> length (alias_tab st') = n"
    by (simp add: fields len)
  have c2: "distinct (small st' @ large st')"
    using d1 d2 d3 more_nb more_ns
    by (auto simp: fields distinct_butlast dest: in_set_butlastD)
  have c3: "\<forall>i \<in> worklist st'. 0 \<le> i \<and> i < int n \<and> alias_tab st' ! nat i = 0"
  proof
    fix i assume "i \<in> worklist st'"
    then have i: "i \<in> worklist st" "i \<noteq> less" by (simp_all add: wl')
    then have "0 \<le> i" "i < int n" "alias_tab st ! nat i = 0" using wl by blast+
    moreover have "nat i \<noteq> nat less" using i(2) lr \<open>0 \<le> i\<close> by simp
    ultimately show "0 \<le> i \<and> i < int n \<and> alias_tab st' ! nat i = 0"
      by (simp add: fields)
  qed
  have c4: "\<forall>a \<in> set (alias_tab st'). 0 \<le> a \<and> a < int n"
    using al mr set_update_subset_insert[of "alias_tab st" "nat less" more]
    by (auto simp: fields)
  have c5: "\<forall>i \<in> set (small st'). \<not> fge A (probs2 st' ! nat i) (average A n)"
  proof
    fix i assume i: "i \<in> set (small st')"
    show "\<not> fge A (probs2 st' ! nat i) (average A n)"
    proof (cases "i = more")
      case True
      with i more_ns have "\<not> fge A w (average A n)"
        by (auto simp: fields split: if_splits dest: in_set_butlastD)
      then show ?thesis using True mr len by (simp add: fields)
    next
      case False
      with i have iin: "i \<in> set (small st)"
        by (auto simp: fields split: if_splits dest: in_set_butlastD)
      then have "0 \<le> i" using wl by (auto simp: worklist_def)
      then have "nat i \<noteq> nat more" using False mr by simp
      then show ?thesis using sm[OF iin] by (simp add: fields)
    qed
  qed
  have c6: "\<forall>i \<in> set (large st'). fge A (probs2 st' ! nat i) (average A n)"
  proof
    fix i assume i: "i \<in> set (large st')"
    show "fge A (probs2 st' ! nat i) (average A n)"
    proof (cases "i = more")
      case True
      with i more_nb have "fge A w (average A n)"
        by (auto simp: fields split: if_splits)
      then show ?thesis using True mr len by (simp add: fields)
    next
      case False
      with i have iin: "i \<in> set (large st)"
        by (auto simp: fields split: if_splits dest: in_set_butlastD)
      then have "0 \<le> i" using wl by (auto simp: worklist_def)
      then have "nat i \<noteq> nat more" using False mr by simp
      then show ?thesis using lg[OF iin] by (simp add: fields)
    qed
  qed
  have c7: "\<forall>i < n. int i \<notin> worklist st' \<longrightarrow>
      probability st' ! i = fmul A (probs2 st' ! i) (float64_of A (int n))"
  proof (intro allI impI)
    fix i assume i: "i < n" "int i \<notin> worklist st'"
    have "more \<in> worklist st'"
      using more_in lm unfolding wl' by (simp add: worklist_def)
    with i(2) have "int i \<noteq> more" by auto
    then have im: "i \<noteq> nat more"
      using mr by auto
    show "probability st' ! i = fmul A (probs2 st' ! i) (float64_of A (int n))"
    proof (cases "i = nat less")
      case True
      then show ?thesis using im i(1) len by (simp add: fields)
    next
      case False
      then have "int i \<noteq> less" by auto
      with i(2) have "int i \<notin> worklist st" by (simp add: wl')
      from dn[OF i(1) this] show ?thesis using False im by (simp add: fields)
    qed
  qed
  show ?thesis
    unfolding vose_inv_def st'_def[symmetric]
    using c1 c2 c3 c4 c5 c6 c7 by blast
qed

lemma pair_next_size:
  assumes "small st \<noteq> []" "large st \<noteq> []"
  shows "length (small (pair_next A n st)) + length (large (pair_next A n st)) + 1
       = length (small st) + length (large st)"
  using assms by (simp add: pair_next_def Let_def)

lemma pair_loop_rule:
  assumes "vose_inv A n st" "P st"
    and step: "\<And>s. vose_inv A n s \<Longrightarrow> P s \<Longrightarrow> small s \<noteq> [] \<Longrightarrow> large s \<noteq> [] \<Longrightarrow>
                 P (pair_next A n s)"
  shows "\<exists>st'. pair_loop A (int n) (average A n) st = Inr st' \<and> vose_inv A n st' \<and> P st' \<and>
           (small st' = [] \<or> large st' = [])"
  using assms(1,2)
proof (induction "length (small st) + length (large st)" arbitrary: st rule: less_induct)
  case less
  show ?case
  proof (cases "small st \<noteq> [] \<and> large st \<noteq> []")
    case True
    then have ne: "small st \<noteq> []" "large st \<noteq> []" by simp_all
    let ?st = "pair_next A n st"
    have "length (small ?st) + length (large ?st) < length (small st) + length (large st)"
      using pair_next_size[OF ne, of A n] by simp
    from less.hyps[OF this vose_inv_pair_next[OF less.prems(1) ne]
        step[OF less.prems ne]]
    obtain st' where "pair_loop A (int n) (average A n) ?st = Inr st'"
      "vose_inv A n st'" "P st'" "small st' = [] \<or> large st' = []" by blast
    moreover have "pair_loop A (int n) (average A n) st = pair_loop A (int n) (average A n) ?st"
      using ne pair_step_next[OF less.prems(1) ne]
      by (subst pair_loop.simps) (simp add: Len_def)
    ultimately show ?thesis by auto
  next
    case False
    then have "pair_loop A (int n) (average A n) st = Inr st"
      by (subst pair_loop.simps) (auto simp: Len_def)
    with False less.prems show ?thesis by auto
  qed
qed

section \<open>Populating and draining\<close>

lemma populate_from:
  assumes "length (probs2 st) = n" "i \<le> n"
  shows "populate A avg (int n) (int i) st =
     Inr (st\<lparr>small := small st @ map int (filter (\<lambda>j. \<not> fge A (probs2 st ! j) avg) [i..<n]),
             large := large st @ map int (filter (\<lambda>j. fge A (probs2 st ! j) avg) [i..<n])\<rparr>)"
  using assms
proof (induction "n - i" arbitrary: i st)
  case 0
  then have "i = n" by simp
  then show ?case by (subst populate.simps) simp
next
  case (Suc d)
  then have lt: "i < n" and d: "d = n - Suc i" by simp_all
  have up: "[i..<n] = i # [Suc i..<n]" using lt by (simp add: upt_conv_Cons)
  have nxt: "int i + 1 = int (Suc i)" by simp
  show ?case
  proof (cases "fge A (probs2 st ! i) avg")
    case True
    let ?st = "st\<lparr>large := PushBack (large st) (int i)\<rparr>"
    have "populate A avg (int n) (int i) st = populate A avg (int n) (int (Suc i)) ?st"
      using lt True Suc.prems(1)
      by (subst populate.simps) (simp add: and_then_def index_def nxt del: of_nat_Suc)
    also have "\<dots> = Inr (?st\<lparr>small := small ?st @
          map int (filter (\<lambda>j. \<not> fge A (probs2 ?st ! j) avg) [Suc i..<n]),
        large := large ?st @ map int (filter (\<lambda>j. fge A (probs2 ?st ! j) avg) [Suc i..<n])\<rparr>)"
      using Suc.hyps(1)[OF d, of ?st] Suc.prems lt by simp
    finally show ?thesis using True by (simp add: up PushBack_def)
  next
    case False
    let ?st = "st\<lparr>small := PushBack (small st) (int i)\<rparr>"
    have "populate A avg (int n) (int i) st = populate A avg (int n) (int (Suc i)) ?st"
      using lt False Suc.prems(1)
      by (subst populate.simps) (simp add: and_then_def index_def nxt del: of_nat_Suc)
    also have "\<dots> = Inr (?st\<lparr>small := small ?st @
          map int (filter (\<lambda>j. \<not> fge A (probs2 ?st ! j) avg) [Suc i..<n]),
        large := large ?st @ map int (filter (\<lambda>j. fge A (probs2 ?st ! j) avg) [Suc i..<n])\<rparr>)"
      using Suc.hyps(1)[OF d, of ?st] Suc.prems lt by simp
    finally show ?thesis using False by (simp add: up PushBack_def)
  qed
qed

lemma populated_eq: "populated A probs = Inr (populated_state A probs)"
proof -
  have "length (probs2 (start A probs)) = length probs"
    by (simp add: start_def normalize_def)
  from populate_from[OF this, of 0 A "average A (length probs)"]
  show ?thesis by (simp add: populated_def populated_state_def start_def)
qed

lemma worklist_populated:
  "worklist (populated_state A probs) = int ` {..<length probs}"
  by (auto simp: worklist_def populated_state_def)

lemma vose_inv_populated:
  assumes "probs \<noteq> []"
  shows "vose_inv A (length probs) (populated_state A probs)"
proof -
  have "distinct (map int (filter (\<lambda>j. \<not> fge A (normalize A probs ! j) (average A (length probs)))
                   [0..<length probs]) @
          map int (filter (\<lambda>j. fge A (normalize A probs ! j) (average A (length probs)))
                   [0..<length probs]))"
    by (auto simp: distinct_map inj_on_def)
  moreover have "\<forall>i<length probs. int i \<in> worklist (populated_state A probs)"
    by (simp add: worklist_populated)
  ultimately show ?thesis
    using assms
    unfolding vose_inv_def worklist_populated
    by (auto simp: populated_state_def start_def normalize_def)
qed

lemma drain_snoc:
  assumes "0 \<le> x" "x < int (length pr)"
  shows "drain A (q @ [x]) pr = drain A q (pr[nat x := fone A])"
  using assms by (subst drain.simps) (simp add: Len_def PopBack_def assign_def)

lemma drain_result:
  assumes "\<forall>i \<in> set q. 0 \<le> i \<and> i < int (length pr)"
  shows "\<exists>pr'. drain A q pr = Inr ([], pr') \<and> length pr' = length pr \<and>
           (\<forall>j < length pr. pr' ! j = (if int j \<in> set q then fone A else pr ! j))"
  using assms
proof (induction q arbitrary: pr rule: rev_induct)
  case Nil
  show ?case by (subst drain.simps) (simp add: Len_def)
next
  case (snoc x q)
  then have x: "0 \<le> x" "x < int (length pr)" by simp_all
  let ?pr = "pr[nat x := fone A]"
  have "\<forall>i \<in> set q. 0 \<le> i \<and> i < int (length ?pr)" using snoc.prems by simp
  from snoc.IH[OF this] obtain pr' where pr':
    "drain A q ?pr = Inr ([], pr')" "length pr' = length pr"
    "\<forall>j < length pr. pr' ! j = (if int j \<in> set q then fone A else ?pr ! j)"
    by auto
  have "\<forall>j < length pr. pr' ! j = (if int j \<in> set (q @ [x]) then fone A else pr ! j)"
  proof (intro allI impI)
    fix j assume j: "j < length pr"
    show "pr' ! j = (if int j \<in> set (q @ [x]) then fone A else pr ! j)"
    proof (cases "int j = x")
      case True
      then have "nat x = j" by simp
      then show ?thesis using pr'(3) j True by simp
    next
      case False
      then have "nat x \<noteq> j" using x by auto
      then show ?thesis using pr'(3) j False by simp
    qed
  qed
  then show ?case using pr'(1,2) drain_snoc[OF x, of A q] by simp
qed

section \<open>The construction as a whole\<close>

lemma paired_rule:
  assumes ne: "probs \<noteq> []" and init: "P (populated_state A probs)"
    and step: "\<And>s. vose_inv A (length probs) s \<Longrightarrow> P s \<Longrightarrow> small s \<noteq> [] \<Longrightarrow>
                 large s \<noteq> [] \<Longrightarrow> P (pair_next A (length probs) s)"
  shows "\<exists>st. paired A probs = Inr st \<and> vose_inv A (length probs) st \<and> P st \<and>
           (small st = [] \<or> large st = [])"
  using pair_loop_rule[of A "length probs" "populated_state A probs" P,
      OF vose_inv_populated[OF ne] init step]
  by (simp add: paired_def populated_eq and_then_def)

lemma InitWithSeed_of_paired:
  assumes ne: "probs \<noteq> []" and p: "paired A probs = Inr st"
    and I: "vose_inv A (length probs) st"
  shows "\<exists>pr. InitWithSeed A R probs sd =
            Inr \<lparr>probability = pr, alias_tab = alias_tab st, seed = sd, rand = New R sd\<rparr> \<and>
          length pr = length probs \<and>
          (\<forall>j < length probs. pr ! j = (if int j \<in> worklist st then fone A else probability st ! j))"
proof -
  let ?n = "length probs"
  have len: "length (probability st) = ?n"
    and wl: "\<And>i. i \<in> worklist st \<Longrightarrow> 0 \<le> i \<and> i < int ?n"
    using I unfolding vose_inv_def by blast+
  have "\<forall>i \<in> set (small st). 0 \<le> i \<and> i < int (length (probability st))"
    using wl len by (auto simp: worklist_def)
  from drain_result[OF this, of A] obtain pr1 where pr1:
    "drain A (small st) (probability st) = Inr ([], pr1)" "length pr1 = ?n"
    "\<forall>j < ?n. pr1 ! j = (if int j \<in> set (small st) then fone A else probability st ! j)"
    using len by auto
  have "\<forall>i \<in> set (large st). 0 \<le> i \<and> i < int (length pr1)"
    using wl pr1(2) by (auto simp: worklist_def)
  from drain_result[OF this, of A] obtain pr2 where pr2:
    "drain A (large st) pr1 = Inr ([], pr2)" "length pr2 = ?n"
    "\<forall>j < ?n. pr2 ! j = (if int j \<in> set (large st) then fone A else pr1 ! j)"
    using pr1(2) by auto
  have "InitWithSeed A R probs sd =
      Inr \<lparr>probability = pr2, alias_tab = alias_tab st, seed = sd, rand = New R sd\<rparr>"
    using ne p pr1(1) pr2(1) by (simp add: InitWithSeed_def and_then_def)
  moreover have "\<forall>j < ?n. pr2 ! j = (if int j \<in> worklist st then fone A else probability st ! j)"
    using pr1(3) pr2(3) by (auto simp: worklist_def)
  ultimately show ?thesis using pr2(2) by blast
qed

lemma InitWithSeed_rule:
  assumes ne: "probs \<noteq> []" and init: "P (populated_state A probs)"
    and step: "\<And>s. vose_inv A (length probs) s \<Longrightarrow> P s \<Longrightarrow> small s \<noteq> [] \<Longrightarrow>
                 large s \<noteq> [] \<Longrightarrow> P (pair_next A (length probs) s)"
  shows "\<exists>st pr. paired A probs = Inr st \<and> vose_inv A (length probs) st \<and> P st \<and>
           (small st = [] \<or> large st = []) \<and>
           InitWithSeed A R probs sd =
             Inr \<lparr>probability = pr, alias_tab = alias_tab st, seed = sd, rand = New R sd\<rparr> \<and>
           length pr = length probs \<and>
           (\<forall>j < length probs.
              pr ! j = (if int j \<in> worklist st then fone A else probability st ! j))"
proof -
  from paired_rule[of probs P A, OF ne init step] obtain st where st:
    "paired A probs = Inr st" "vose_inv A (length probs) st" "P st"
    "small st = [] \<or> large st = []" by blast
  from InitWithSeed_of_paired[OF ne st(1,2), of R sd] st show ?thesis by blast
qed

lemma InitWithSeed_ok:
  assumes ne: "probs \<noteq> []"
  shows "\<exists>st pr. paired A probs = Inr st \<and> vose_inv A (length probs) st \<and>
           (small st = [] \<or> large st = []) \<and>
           InitWithSeed A R probs sd =
             Inr \<lparr>probability = pr, alias_tab = alias_tab st, seed = sd, rand = New R sd\<rparr> \<and>
           length pr = length probs \<and>
           (\<forall>j < length probs.
              pr ! j = (if int j \<in> worklist st then fone A else probability st ! j))"
  using InitWithSeed_rule[of probs "\<lambda>_. True" A R sd, OF ne] by simp

section \<open>Next\<close>

lemma Next_result:
  assumes n: "0 < length (probability s)"
    and al: "length (alias_tab s) = length (probability s)"
    and col: "Intn_raw R (src (rand s)) (int (length (probability s))) = (column, g1)"
      "0 \<le> column" "column < int (length (probability s))"
    and fl: "Float64_raw R g1 = (u, g2)"
  shows "Next A R s =
     Inr (if flt A u (probability s ! nat column) then column else alias_tab s ! nat column,
          s\<lparr>rand := \<lparr>src = g2,
                      drawn = drawn (rand s) @
                        [DrawIntn (int (length (probability s))), DrawFloat64]\<rparr>\<rparr>)"
  using assms
  by (simp add: Next_def Intn_def Float64_def and_then_def index_def Let_def)

section \<open>Facts about the worklists\<close>

lemma pair_step_size:
  assumes "pair_step A n avg st = Inr st'"
  shows "length (small st') + length (large st') + 1 = length (small st) + length (large st)"
  using assms
  by (auto simp: pair_step_def and_then_def PopBack_def PushBack_def index_def assign_def
           split: if_splits sum.splits prod.splits)

lemma pair_step_classifies:
  assumes "pair_step A n avg st = Inr st'"
  shows "small st \<noteq> [] \<and> large st \<noteq> [] \<and>
     probs2 st' ! nat (last (large st)) =
       fsub A (fadd A (probs2 st ! nat (last (large st))) (probs2 st ! nat (last (small st)))) avg \<and>
     (if fge A (probs2 st' ! nat (last (large st)))
           (fdiv A (fone A) (float64_of A (int (length (probs2 st)))))
      then large st' = butlast (large st) @ [last (large st)] \<and> small st' = butlast (small st)
      else small st' = butlast (small st) @ [last (large st)] \<and> large st' = butlast (large st))"
  using assms
  by (auto simp: pair_step_def and_then_def PopBack_def PushBack_def index_def assign_def
           split: if_splits sum.splits prod.splits)

lemma worklist_pair_next_nonempty:
  "worklist (pair_next A n st) \<noteq> {}"
  by (simp add: worklist_def pair_next_def Let_def)

lemma size_populated:
  "length (small (populated_state A probs)) + length (large (populated_state A probs)) =
     length probs"
  using sum_length_filter_compl[of "\<lambda>j. fge A (normalize A probs ! j) (average A (length probs))"
      "[0..<length probs]"]
  by (simp add: populated_state_def)

lemma iterations_bound:
  assumes "vose_inv A n st"
  shows "iterations A (int n) (average A n) st \<le> length (small st) + length (large st) - 1"
  using assms
proof (induction "length (small st) + length (large st)" arbitrary: st rule: less_induct)
  case less
  show ?case
  proof (cases "small st \<noteq> [] \<and> large st \<noteq> []")
    case True
    then have ne: "small st \<noteq> []" "large st \<noteq> []" by simp_all
    let ?st = "pair_next A n st"
    have sz: "length (small ?st) + length (large ?st) + 1 = length (small st) + length (large st)"
      using pair_next_size[OF ne, of A n] .
    then have "length (small ?st) + length (large ?st) < length (small st) + length (large st)"
      by simp
    from less.hyps[OF this vose_inv_pair_next[OF less.prems ne]]
    have IH: "iterations A (int n) (average A n) ?st \<le> length (small ?st) + length (large ?st) - 1" .
    have pos: "0 < length (small ?st) + length (large ?st)"
      by (simp add: pair_next_def Let_def)
    have "iterations A (int n) (average A n) st = Suc (iterations A (int n) (average A n) ?st)"
      using ne pair_step_next[OF less.prems ne]
      by (subst iterations.simps) (simp add: Len_def)
    then show ?thesis using IH sz pos by linarith
  next
    case False
    then have "iterations A (int n) (average A n) st = 0"
      by (subst iterations.simps) (auto simp: Len_def)
    then show ?thesis by simp
  qed
qed

section \<open>Repeated draws\<close>

lemma Next_in_table:
  assumes R: "Intn_in_range R"
    and n: "0 < length (probability s)"
    and len: "length (alias_tab s) = length (probability s)"
    and al: "\<forall>a \<in> set (alias_tab s). 0 \<le> a \<and> a < int (length (probability s))"
  shows "\<exists>r r'. Next A R s = Inr (r, s\<lparr>rand := r'\<rparr>) \<and> 0 \<le> r \<and> r < int (length (probability s))"
proof -
  let ?n = "int (length (probability s))"
  obtain column g1 where c: "Intn_raw R (src (rand s)) ?n = (column, g1)"
    by (cases "Intn_raw R (src (rand s)) ?n")
  obtain u g2 where f: "Float64_raw R g1 = (u, g2)"
    by (cases "Float64_raw R g1")
  have cr: "0 \<le> column" "column < ?n"
    using R n c unfolding Intn_in_range_def by (metis fst_conv of_nat_0_less_iff)+
  have "alias_tab s ! nat column \<in> set (alias_tab s)"
    using cr len by simp
  with al have "0 \<le> alias_tab s ! nat column \<and> alias_tab s ! nat column < ?n" by blast
  with Next_result[OF n len c cr f, of A] cr show ?thesis by auto
qed

lemma NextN_in_table:
  assumes R: "Intn_in_range R"
    and n: "0 < length (probability s)"
    and len: "length (alias_tab s) = length (probability s)"
    and al: "\<forall>a \<in> set (alias_tab s). 0 \<le> a \<and> a < int (length (probability s))"
  shows "\<exists>rs r'. NextN A R k s = Inr (rs, s\<lparr>rand := r'\<rparr>) \<and> length rs = k \<and>
           (\<forall>r \<in> set rs. 0 \<le> r \<and> r < int (length (probability s)))"
  using n len al
proof (induction k arbitrary: s)
  case 0
  have "s = s\<lparr>rand := rand s\<rparr>" by simp
  then show ?case by (metis NextN.simps(1) length_0_conv empty_iff list.set(1))
next
  case (Suc k)
  from Next_in_table[OF R Suc.prems, of A] obtain r r1 where r:
    "Next A R s = Inr (r, s\<lparr>rand := r1\<rparr>)" "0 \<le> r" "r < int (length (probability s))"
    by blast
  let ?s = "s\<lparr>rand := r1\<rparr>"
  have "0 < length (probability ?s)" "length (alias_tab ?s) = length (probability ?s)"
    "\<forall>a \<in> set (alias_tab ?s). 0 \<le> a \<and> a < int (length (probability ?s))"
    using Suc.prems by simp_all
  from Suc.IH[OF this] obtain rs r2 where rs:
    "NextN A R k ?s = Inr (rs, ?s\<lparr>rand := r2\<rparr>)" "length rs = k"
    "\<forall>x \<in> set rs. 0 \<le> x \<and> x < int (length (probability s))"
    by auto
  have "NextN A R (Suc k) s = Inr (r # rs, s\<lparr>rand := r2\<rparr>)"
    using r(1) rs(1) by simp
  with r(2,3) rs(2,3) show ?case by auto
qed

section \<open>Rounding to nearest\<close>

lemma bitlen_le0: "n \<le> 0 \<Longrightarrow> bitlen n = 0"
  by (subst bitlen.simps) simp

lemma bitlen_pos: "0 < n \<Longrightarrow> bitlen n = Suc (bitlen (n div 2))"
  by (subst bitlen.simps) simp

lemma bitlen_bounds:
  "0 < n \<Longrightarrow> 2 ^ (bitlen n - 1) \<le> n \<and> n < 2 ^ bitlen n"
proof (induction n rule: bitlen.induct)
  case (1 n)
  show ?case
  proof (cases "n div 2 \<le> 0")
    case True
    with "1.prems" have "n = 1" by linarith
    then show ?thesis by (simp add: bitlen_pos bitlen_le0)
  next
    case False
    then have h: "0 < n div 2" by simp
    from "1.IH" h "1.prems" have IH: "2 ^ (bitlen (n div 2) - 1) \<le> n div 2"
      "n div 2 < 2 ^ bitlen (n div 2)" by simp_all
    have b: "bitlen n = Suc (bitlen (n div 2))" using "1.prems" by (rule bitlen_pos)
    have bp: "0 < bitlen (n div 2)" using h by (simp add: bitlen_pos)
    then have s: "bitlen n - 1 = Suc (bitlen (n div 2) - 1)" by (simp add: b)
    have e: "(2::int) ^ bitlen (n div 2) = 2 * 2 ^ (bitlen (n div 2) - 1)"
      using bp by (cases "bitlen (n div 2)") simp_all
    have "2 * 2 ^ (bitlen (n div 2) - 1) \<le> n" using IH(1) by linarith
    then have "2 ^ (bitlen n - 1) \<le> n" by (simp add: b e)
    moreover have "n < 2 * 2 ^ bitlen (n div 2)" using IH(2) by linarith
    then have "n < 2 ^ bitlen n" by (simp add: b)
    ultimately show ?thesis by simp
  qed
qed

lemma bitlen_eq:
  assumes "2 ^ k \<le> n" "n < 2 ^ Suc k"
  shows "bitlen n = Suc k"
proof -
  have n: "0 < n" using assms(1) by (smt (verit) zero_less_power)
  from bitlen_bounds[OF n] have b: "2 ^ (bitlen n - 1) \<le> n" "n < 2 ^ bitlen n" by simp_all
  have "(2::int) ^ k < 2 ^ bitlen n" using assms(1) b(2) by linarith
  then have 1: "k < bitlen n" by simp
  have "(2::int) ^ (bitlen n - 1) < 2 ^ Suc k" using assms(2) b(1) by linarith
  then have 2: "bitlen n - 1 < Suc k" by (simp del: power_Suc)
  from 1 2 show ?thesis by linarith
qed

lemma bitlen_mono: "m \<le> n \<Longrightarrow> bitlen m \<le> bitlen n"
proof (cases "0 < m")
  case False
  then show ?thesis by (simp add: bitlen_le0)
next
  case True
  assume mn: "m \<le> n"
  with True have n: "0 < n" by simp
  from bitlen_bounds[OF True] bitlen_bounds[OF n] mn
  have "(2::int) ^ (bitlen m - 1) < 2 ^ bitlen n" by linarith
  then have "bitlen m - 1 < bitlen n" by simp
  then show ?thesis by linarith
qed

lemma bitlen_mult_pow2: "0 < z \<Longrightarrow> bitlen (z * 2 ^ j) = bitlen z + j"
proof -
  assume z: "0 < z"
  from bitlen_bounds[OF z] have b: "2 ^ (bitlen z - 1) \<le> z" "z < 2 ^ bitlen z" by simp_all
  have p: "0 < bitlen z" using z by (simp add: bitlen_pos)
  have "(2::int) ^ (bitlen z - 1 + j) \<le> z * 2 ^ j"
    using b(1) by (simp add: power_add)
  moreover have "z * 2 ^ j < 2 ^ Suc (bitlen z - 1 + j)"
  proof -
    have "z * 2 ^ j < 2 ^ bitlen z * 2 ^ j" using b(2) by simp
    also have "\<dots> = 2 ^ Suc (bitlen z - 1 + j)" using p by (simp add: power_add[symmetric])
    finally show ?thesis .
  qed
  ultimately have "bitlen (z * 2 ^ j) = Suc (bitlen z - 1 + j)" by (rule bitlen_eq)
  then show ?thesis using p by simp
qed

lemma rhe_of_int: "rhe (of_int z) = z"
  by (simp add: rhe_def)

lemma rhe_floor: "\<lfloor>q\<rfloor> \<le> rhe q" and rhe_ceil: "rhe q \<le> \<lfloor>q\<rfloor> + 1"
  by (simp_all add: rhe_def Let_def)

lemma rhe_mono:
  assumes "q \<le> q'"
  shows "rhe q \<le> rhe q'"
proof (cases "\<lfloor>q\<rfloor> = \<lfloor>q'\<rfloor>")
  case True
  then have "q - of_int \<lfloor>q\<rfloor> \<le> q' - of_int \<lfloor>q'\<rfloor>" using assms by simp
  then show ?thesis using True by (auto simp: rhe_def Let_def)
next
  case False
  moreover have "\<lfloor>q\<rfloor> \<le> \<lfloor>q'\<rfloor>" using assms by (rule floor_mono)
  ultimately have "\<lfloor>q\<rfloor> + 1 \<le> \<lfloor>q'\<rfloor>" by simp
  with rhe_ceil[of q] rhe_floor[of q'] show ?thesis by linarith
qed

lemma rhe_error: "\<bar>of_int (rhe q) - q\<bar> \<le> 1 / 2"
proof -
  have "of_int \<lfloor>q\<rfloor> \<le> q" "q < of_int \<lfloor>q\<rfloor> + 1" by linarith+
  then show ?thesis by (auto simp: rhe_def Let_def)
qed

lemma rhe_le: "q \<le> of_int z \<Longrightarrow> rhe q \<le> z"
  using rhe_mono[of q "of_int z"] by (simp add: rhe_of_int)

lemma rhe_ge: "of_int z \<le> q \<Longrightarrow> z \<le> rhe q"
  using rhe_mono[of "of_int z" q] by (simp add: rhe_of_int)

text \<open>The exponent of the spacing at y (in units of 2^-1074) and what it says about y.\<close>

lemma grid_upper:
  fixes y :: real
  assumes "0 \<le> y"
  shows "y < 2 ^ (bitlen \<lfloor>y\<rfloor> - 53 + 53)"
proof (cases "0 < \<lfloor>y\<rfloor>")
  case False
  have "y < of_int \<lfloor>y\<rfloor> + 1" by linarith
  moreover have "of_int \<lfloor>y\<rfloor> \<le> (0::real)" using False by simp
  ultimately have "y < 1" by linarith
  also have "(1::real) \<le> 2 ^ (bitlen \<lfloor>y\<rfloor> - 53 + 53)" by simp
  finally show ?thesis .
next
  case True
  from bitlen_bounds[OF True] have "\<lfloor>y\<rfloor> < 2 ^ bitlen \<lfloor>y\<rfloor>" by simp
  then have "\<lfloor>y\<rfloor> + 1 \<le> 2 ^ bitlen \<lfloor>y\<rfloor>" by simp
  then have "of_int (\<lfloor>y\<rfloor> + 1) \<le> (of_int (2 ^ bitlen \<lfloor>y\<rfloor>) :: real)"
    by (rule of_int_le_iff[THEN iffD2])
  then have "of_int \<lfloor>y\<rfloor> + 1 \<le> (2::real) ^ bitlen \<lfloor>y\<rfloor>" by simp
  moreover have "y < of_int \<lfloor>y\<rfloor> + 1" by linarith
  ultimately have "y < 2 ^ bitlen \<lfloor>y\<rfloor>" by linarith
  also have "(2::real) ^ bitlen \<lfloor>y\<rfloor> \<le> 2 ^ (bitlen \<lfloor>y\<rfloor> - 53 + 53)"
    by (rule power_increasing) simp_all
  finally show ?thesis .
qed

lemma grid_lower:
  fixes y :: real
  assumes "0 < bitlen \<lfloor>y\<rfloor> - 53"
  shows "2 ^ (bitlen \<lfloor>y\<rfloor> - 53 + 52) \<le> y"
proof -
  have p: "0 < \<lfloor>y\<rfloor>"
  proof (rule ccontr)
    assume "\<not> 0 < \<lfloor>y\<rfloor>"
    then have "bitlen \<lfloor>y\<rfloor> = 0" by (simp add: bitlen_le0)
    with assms show False by simp
  qed
  have eq: "bitlen \<lfloor>y\<rfloor> - 1 = bitlen \<lfloor>y\<rfloor> - 53 + 52" using assms by linarith
  from bitlen_bounds[OF p] have "2 ^ (bitlen \<lfloor>y\<rfloor> - 1) \<le> \<lfloor>y\<rfloor>" by simp
  then have "(2::int) ^ (bitlen \<lfloor>y\<rfloor> - 53 + 52) \<le> \<lfloor>y\<rfloor>" by (simp only: eq)
  then have "of_int (2 ^ (bitlen \<lfloor>y\<rfloor> - 53 + 52)) \<le> (of_int \<lfloor>y\<rfloor> :: real)"
    by (rule of_int_le_iff[THEN iffD2])
  then have "(2::real) ^ (bitlen \<lfloor>y\<rfloor> - 53 + 52) \<le> of_int \<lfloor>y\<rfloor>" by simp
  moreover have "of_int \<lfloor>y\<rfloor> \<le> y" by simp
  ultimately show ?thesis by linarith
qed

lemma grid_mantissa:
  assumes "0 \<le> y"
  shows "0 \<le> rhe (y / 2 ^ (bitlen \<lfloor>y\<rfloor> - 53))"
    and "rhe (y / 2 ^ (bitlen \<lfloor>y\<rfloor> - 53)) \<le> 2 ^ 53"
proof -
  let ?e = "bitlen \<lfloor>y\<rfloor> - 53"
  have "of_int 0 \<le> y / 2 ^ ?e" using assms by simp
  then show "0 \<le> rhe (y / 2 ^ ?e)" by (rule rhe_ge)
  have "y < 2 ^ (?e + 53)" using assms by (rule grid_upper)
  then have "y / 2 ^ ?e < 2 ^ 53"
    by (simp add: power_add divide_less_eq mult.commute)
  then have "y / 2 ^ ?e \<le> of_int (2 ^ 53)" by simp
  then show "rhe (y / 2 ^ ?e) \<le> 2 ^ 53" by (rule rhe_le)
qed

lemma grid_nonneg: "0 \<le> y \<Longrightarrow> 0 \<le> grid y"
  using grid_mantissa(1)[of y] by (simp add: grid_def Let_def)

lemma grid_exact:
  assumes z: "0 \<le> z" and b: "bitlen z \<le> 53"
  shows "grid (of_int (z * 2 ^ j)) = of_int (z * 2 ^ j)"
proof (cases "z = 0")
  case True
  then show ?thesis by (simp add: grid_def bitlen_le0 rhe_def)
next
  case False
  with z have zp: "0 < z" by simp
  define Y where "Y = z * 2 ^ j"
  define e where "e = bitlen Y - 53"
  define Q where "Q = z * 2 ^ (j - e)"
  have bl: "bitlen Y = bitlen z + j" unfolding Y_def using zp by (rule bitlen_mult_pow2)
  have ej: "e \<le> j" using b by (simp add: e_def bl)
  have "(2::int) ^ j = 2 ^ (j - e) * 2 ^ e"
    using ej by (simp add: power_add[symmetric])
  then have "Y = Q * 2 ^ e" by (simp add: Y_def Q_def)
  then have split: "(of_int Y :: real) = of_int Q * 2 ^ e" by simp
  have "(of_int Y :: real) / 2 ^ e = of_int Q"
    by (subst split) simp
  then have "rhe (of_int Y / 2 ^ e) = Q"
    by (simp only: rhe_of_int)
  then have "grid (of_int Y) = of_int Q * 2 ^ e"
    by (simp add: grid_def Let_def e_def)
  also have "\<dots> = of_int Y"
    by (rule split[symmetric])
  finally show ?thesis unfolding Y_def .
qed

lemma grid_idem:
  assumes "0 \<le> y"
  shows "grid (grid y) = grid y"
proof -
  let ?e = "bitlen \<lfloor>y\<rfloor> - 53"
  let ?m = "rhe (y / 2 ^ ?e)"
  have g: "grid y = of_int (?m * 2 ^ ?e)" by (simp add: grid_def Let_def)
  note m = grid_mantissa[OF assms]
  show ?thesis
  proof (cases "?m = 2 ^ 53")
    case True
    then have "grid y = of_int (1 * 2 ^ (53 + ?e))" by (simp add: g power_add)
    moreover have "bitlen 1 \<le> 53" by (simp add: bitlen_pos bitlen_le0)
    ultimately show ?thesis using grid_exact[of 1 "53 + ?e"] by simp
  next
    case False
    with m(2) have lt: "?m < 2 ^ 53" by simp
    have "bitlen ?m \<le> 53"
    proof (cases "0 < ?m")
      case True
      from bitlen_bounds[OF True] lt have "(2::int) ^ (bitlen ?m - 1) < 2 ^ 53" by linarith
      then have "bitlen ?m - 1 < 53"
        by (rule power_less_imp_less_exp[rotated]) simp
      then show ?thesis by simp
    next
      case False
      then show ?thesis by (simp add: bitlen_le0)
    qed
    from grid_exact[OF m(1) this, of ?e] show ?thesis by (simp only: g)
  qed
qed

lemma grid_mono:
  assumes "0 \<le> y" "y \<le> y'"
  shows "grid y \<le> grid y'"
proof -
  let ?e = "bitlen \<lfloor>y\<rfloor> - 53" and ?e' = "bitlen \<lfloor>y'\<rfloor> - 53"
  have y': "0 \<le> y'" using assms by simp
  have "bitlen \<lfloor>y\<rfloor> \<le> bitlen \<lfloor>y'\<rfloor>"
    using assms(2) by (intro bitlen_mono floor_mono)
  then have ee: "?e \<le> ?e'" by simp
  show ?thesis
  proof (cases "?e = ?e'")
    case True
    have "y / 2 ^ ?e \<le> y' / 2 ^ ?e" using assms(2) by (simp add: divide_right_mono)
    then have "rhe (y / 2 ^ ?e) \<le> rhe (y' / 2 ^ ?e)" by (rule rhe_mono)
    then have "(of_int (rhe (y / 2 ^ ?e)) :: real) \<le> of_int (rhe (y' / 2 ^ ?e))" by simp
    then show ?thesis using True by (simp add: grid_def Let_def)
  next
    case False
    with ee have lt: "?e < ?e'" by simp
    then have pos: "0 < ?e'" by simp
    have "(of_int (rhe (y / 2 ^ ?e)) :: real) \<le> of_int (2 ^ 53)"
      using grid_mantissa(2)[OF assms(1)] by (rule of_int_le_iff[THEN iffD2])
    then have "grid y \<le> 2 ^ 53 * 2 ^ ?e"
      by (simp add: grid_def Let_def)
    also have "\<dots> = 2 ^ (?e + 53)" by (simp add: power_add)
    also have "\<dots> \<le> 2 ^ (?e' + 52)"
      using lt by (intro power_increasing) simp_all
    also have "\<dots> \<le> grid y'"
    proof -
      have "2 ^ (?e' + 52) \<le> y'" using pos by (rule grid_lower)
      then have "of_int (2 ^ 52) \<le> y' / 2 ^ ?e'"
        by (simp add: power_add le_divide_eq mult.commute)
      then have "2 ^ 52 \<le> rhe (y' / 2 ^ ?e')" by (rule rhe_ge)
      then have "(of_int (2 ^ 52) :: real) \<le> of_int (rhe (y' / 2 ^ ?e'))"
        by (rule of_int_le_iff[THEN iffD2])
      then have "2 ^ 52 * 2 ^ ?e' \<le> grid y'"
        by (simp add: grid_def Let_def)
      then show ?thesis by (simp add: power_add mult.commute)
    qed
    finally show ?thesis .
  qed
qed

lemma bitlen_le:
  assumes "m < 2 ^ k"
  shows "bitlen m \<le> k"
proof (cases "0 < m")
  case True
  from bitlen_bounds[OF True] assms have "(2::int) ^ (bitlen m - 1) < 2 ^ k" by linarith
  then have "bitlen m - 1 < k"
    by (rule power_less_imp_less_exp[rotated]) simp
  then show ?thesis by linarith
next
  case False
  then show ?thesis by (simp add: bitlen_le0)
qed

lemma grid_0: "grid 0 = 0"
  by (simp add: grid_def bitlen_le0 rhe_def)

lemma nearest_0: "nearest 0 = 0"
  by (simp add: nearest_def grid_0)

lemma nearest_neg: "nearest (- x) = - nearest x"
  by (cases "x = 0") (auto simp: nearest_def grid_0)

lemma nearest_nonneg: "0 \<le> x \<Longrightarrow> 0 \<le> nearest x"
  by (simp add: nearest_def grid_nonneg)

lemma nearest_nonpos: "x \<le> 0 \<Longrightarrow> nearest x \<le> 0"
  using nearest_nonneg[of "- x"] by (simp add: nearest_neg)

lemma nearest_mono_nonneg:
  assumes "0 \<le> x" "x \<le> y"
  shows "nearest x \<le> nearest y"
proof -
  have "grid (x * 2 ^ emin) \<le> grid (y * 2 ^ emin)"
    using assms by (intro grid_mono) simp_all
  then show ?thesis using assms by (simp add: nearest_def divide_right_mono)
qed

lemma nearest_mono:
  assumes "x \<le> y"
  shows "nearest x \<le> nearest y"
proof (cases "0 \<le> x")
  case True
  then show ?thesis using assms by (rule nearest_mono_nonneg)
next
  case False
  then have x: "x \<le> 0" by simp
  show ?thesis
  proof (cases "0 \<le> y")
    case True
    from nearest_nonpos[OF x] nearest_nonneg[OF True] show ?thesis by linarith
  next
    case False
    then have "0 \<le> - y" "- y \<le> - x" using assms by simp_all
    from nearest_mono_nonneg[OF this] show ?thesis by (simp add: nearest_neg)
  qed
qed

lemma nearest_idem_nonneg:
  assumes "0 \<le> x"
  shows "nearest (nearest x) = nearest x"
proof -
  have g: "0 \<le> grid (x * 2 ^ emin)" using assms by (intro grid_nonneg) simp
  then have g': "\<not> grid (x * 2 ^ emin) / 2 ^ emin < 0" by (simp add: not_less)
  have "nearest x = grid (x * 2 ^ emin) / 2 ^ emin" using assms by (simp add: nearest_def)
  moreover have "nearest (grid (x * 2 ^ emin) / 2 ^ emin) = grid (grid (x * 2 ^ emin)) / 2 ^ emin"
    unfolding nearest_def[of "grid (x * 2 ^ emin) / 2 ^ emin"] using g' by simp
  moreover have "grid (grid (x * 2 ^ emin)) = grid (x * 2 ^ emin)"
    using assms by (intro grid_idem) simp
  ultimately show ?thesis by simp
qed

lemma nearest_idem: "nearest (nearest x) = nearest x"
proof (cases "0 \<le> x")
  case True
  then show ?thesis by (rule nearest_idem_nonneg)
next
  case False
  then have "0 \<le> - x" by simp
  from nearest_idem_nonneg[OF this] show ?thesis by (simp add: nearest_neg)
qed

lemma nearest_scaled_int:
  assumes "0 \<le> z" "bitlen z \<le> 53" "x * 2 ^ emin = of_int (z * 2 ^ j)"
  shows "nearest x = x"
proof -
  have x: "0 \<le> x"
  proof -
    have nn: "0 \<le> x * 2 ^ emin" using assms(1,3) by simp
    show ?thesis
    proof (rule ccontr)
      assume "\<not> 0 \<le> x"
      then have "x * 2 ^ emin < 0" by (intro mult_neg_pos) simp_all
      with nn show False by simp
    qed
  qed
  have "grid (x * 2 ^ emin) = x * 2 ^ emin"
    using grid_exact[OF assms(1,2), of j] by (simp only: assms(3))
  then show ?thesis using x by (simp add: nearest_def)
qed

lemma nearest_dyadic:
  assumes "\<bar>m\<bar> < 2 ^ 53" "k \<le> emin"
  shows "nearest (of_int m / 2 ^ k) = of_int m / 2 ^ k"
proof -
  have pw: "(2::real) ^ emin = 2 ^ k * 2 ^ (emin - k)"
    using assms(2) by (simp add: power_add[symmetric])
  have pos: "nearest (of_int z / 2 ^ k) = of_int z / 2 ^ k" if "0 \<le> z" "z < 2 ^ 53" for z :: int
  proof (rule nearest_scaled_int[OF that(1) bitlen_le[OF that(2)], of _ "emin - k"])
    show "(of_int z :: real) / 2 ^ k * 2 ^ emin = of_int (z * 2 ^ (emin - k))"
      by (simp add: pw)
  qed
  show ?thesis
  proof (cases "0 \<le> m")
    case True
    then show ?thesis using assms(1) by (intro pos) simp_all
  next
    case False
    then have "0 \<le> - m" "- m < 2 ^ 53" using assms(1) by simp_all
    from pos[OF this] show ?thesis using nearest_neg[of "of_int m / 2 ^ k"] by simp
  qed
qed

lemma nearest_int_pow2:
  assumes "\<bar>m\<bar> < 2 ^ 53"
  shows "nearest (of_int m * 2 ^ k) = of_int m * 2 ^ k"
proof -
  have pos: "nearest (of_int z * 2 ^ k) = of_int z * 2 ^ k" if "0 \<le> z" "z < 2 ^ 53" for z :: int
  proof (rule nearest_scaled_int[OF that(1) bitlen_le[OF that(2)], of _ "k + emin"])
    show "(of_int z :: real) * 2 ^ k * 2 ^ emin = of_int (z * 2 ^ (k + emin))"
      by (simp add: power_add)
  qed
  show ?thesis
  proof (cases "0 \<le> m")
    case True
    then show ?thesis using assms(1) by (intro pos) simp_all
  next
    case False
    then have "0 \<le> - m" "- m < 2 ^ 53" using assms(1) by simp_all
    from pos[OF this] show ?thesis using nearest_neg[of "of_int m * 2 ^ k"] by simp
  qed
qed

lemma nearest_1: "nearest 1 = 1"
  using nearest_dyadic[of 1 0] by (simp add: emin_def)

section \<open>rne\<close>

lemma top_pos: "0 < top" "1 < top"
  by (simp_all add: top_def)

lemma rne_not_NaN: "rne x \<noteq> NaN"
  by (simp add: rne_def Let_def)

lemma rne_cases:
  obtains "rne x = PInf" "top \<le> nearest x"
  | "rne x = NInf" "nearest x \<le> - top"
  | "rne x = Fin (nearest x)" "nearest x < top" "- top < nearest x"
  by (cases "top \<le> nearest x"; cases "nearest x \<le> - top")
     (auto simp: rne_def Let_def)

lemma rne_FinD: "rne x = Fin a \<Longrightarrow> a = nearest x \<and> a < top \<and> - top < a"
  by (cases x rule: rne_cases) auto

lemma rne_idem: "rne x = Fin a \<Longrightarrow> rne a = Fin a"
proof -
  assume "rne x = Fin a"
  then have a: "a = nearest x" "a < top" "- top < a" using rne_FinD by blast+
  then have "nearest a = a" by (simp add: nearest_idem)
  with a(2,3) show ?thesis by (simp add: rne_def Let_def)
qed

lemma rne_mono_Fin:
  assumes "x \<le> y" "rne x = Fin a" "rne y = Fin b"
  shows "a \<le> b"
  using nearest_mono[OF assms(1)] rne_FinD[OF assms(2)] rne_FinD[OF assms(3)] by simp

lemma rne_nonneg:
  assumes "0 \<le> x"
  obtains "rne x = PInf" | a where "rne x = Fin a" "0 \<le> a" "rne a = Fin a"
proof (cases x rule: rne_cases)
  case 1
  then show ?thesis using that by blast
next
  case 2
  with nearest_nonneg[OF assms] top_pos(1) show ?thesis by linarith
next
  case 3
  with nearest_nonneg[OF assms] rne_idem[OF 3(1)] show ?thesis using that by blast
qed

lemma rne_unit:
  assumes "0 \<le> x" "x \<le> 1"
  obtains a where "rne x = Fin a" "0 \<le> a" "a \<le> 1" "rne a = Fin a"
proof -
  have "nearest x \<le> 1" using nearest_mono[OF assms(2)] by (simp add: nearest_1)
  moreover have "0 \<le> nearest x" using assms(1) by (rule nearest_nonneg)
  ultimately have "rne x = Fin (nearest x)" using top_pos by (simp add: rne_def Let_def)
  with \<open>0 \<le> nearest x\<close> \<open>nearest x \<le> 1\<close> rne_idem show ?thesis using that by blast
qed

lemma rne_exact: "nearest x = x \<Longrightarrow> \<bar>x\<bar> < top \<Longrightarrow> rne x = Fin x"
  by (auto simp: rne_def Let_def)

lemma rne_dyadic:
  assumes "\<bar>m\<bar> < 2 ^ 53" "k \<le> emin"
  shows "rne (of_int m / 2 ^ k) = Fin (of_int m / 2 ^ k)"
proof (rule rne_exact[OF nearest_dyadic[OF assms]])
  have "\<bar>(of_int m :: real)\<bar> * 1 \<le> \<bar>of_int m\<bar> * 2 ^ k"
    by (intro mult_left_mono) simp_all
  then have "\<bar>of_int m / 2 ^ k\<bar> \<le> \<bar>(of_int m :: real)\<bar>"
    by (simp add: divide_le_eq)
  also have "\<dots> < 2 ^ 53" using assms(1) by (metis of_int_abs of_int_less_numeral_power_cancel_iff)
  also have "(2::real) ^ 53 \<le> top" by (simp add: top_def)
  finally show "\<bar>of_int m / 2 ^ k\<bar> < top" .
qed

lemma rne_between:
  assumes "l \<le> x" "x \<le> u" "rne l = Fin l" "rne u = Fin u"
  obtains a where "rne x = Fin a" "l \<le> a" "a \<le> u" "rne a = Fin a"
proof -
  from rne_FinD[OF assms(3)] rne_FinD[OF assms(4)]
  have l: "nearest l = l" "- top < l" and u: "nearest u = u" "u < top" by simp_all
  have "l \<le> nearest x" "nearest x \<le> u"
    using nearest_mono[OF assms(1)] nearest_mono[OF assms(2)] l(1) u(1) by simp_all
  moreover from this l(2) u(2) have "rne x = Fin (nearest x)"
    by (simp add: rne_def Let_def)
  ultimately show ?thesis using that rne_idem by blast
qed

lemma rne_numerals:
  "rne 0 = Fin 0" "rne 1 = Fin 1" "rne 2 = Fin 2" "rne 3 = Fin 3" "rne 4 = Fin 4"
  "rne (- 1) = Fin (- 1)"
  "rne (1 / 2) = Fin (1 / 2)" "rne (1 / 4) = Fin (1 / 4)" "rne (3 / 4) = Fin (3 / 4)"
  using rne_dyadic[of 0 0] rne_dyadic[of 1 0] rne_dyadic[of 2 0] rne_dyadic[of 3 0]
    rne_dyadic[of 4 0] rne_dyadic[of "- 1" 0]
    rne_dyadic[of 1 1] rne_dyadic[of 1 2] rne_dyadic[of 3 2]
  by (simp_all add: emin_def)

section \<open>Concrete runs\<close>

lemma Intn_in_range_counter: "Intn_in_range counter"
  by (simp add: Intn_in_range_def counter_def)

section \<open>The claims that hold for every arithmetic\<close>

text \<open>
  C2. A call of \<^verbatim>\<open>Next\<close> on a sampler with a non-empty table draws exactly twice: first
  \<^verbatim>\<open>Intn(n)\<close>, then \<^verbatim>\<open>Float64()\<close> on the state that \<^verbatim>\<open>Intn\<close> left. It returns the
  column if the real drawn is below the column's cutoff and the column's alias
  otherwise; the sampler is unchanged but for the generator, whose list of draws has grown
  by these two, whichever branch is taken.
\<close>

theorem Next_two_draws:
  assumes "0 < length (probability s)"
    and "length (alias_tab s) = length (probability s)"
    and "Intn_raw R (src (rand s)) (int (length (probability s))) = (column, g1)"
    and "0 \<le> column" and "column < int (length (probability s))"
    and "Float64_raw R g1 = (u, g2)"
  shows "Next A R s =
     Inr (if flt A u (probability s ! nat column) then column else alias_tab s ! nat column,
          s\<lparr>rand := \<lparr>src = g2,
                      drawn = drawn (rand s) @
                        [DrawIntn (int (length (probability s))), DrawFloat64]\<rparr>\<rparr>)"
  using assms by (rule Next_result)

theorem Next_two_draws_witness:
  "Next ieee counter
     \<lparr>probability = [Fin (1 / 2), Fin 1], alias_tab = [1, 0], seed = 0,
      rand = \<lparr>src = 0, drawn = []\<rparr>\<rparr> =
   Inr (0, \<lparr>probability = [Fin (1 / 2), Fin 1], alias_tab = [1, 0], seed = 0,
            rand = \<lparr>src = 2, drawn = [DrawIntn 2, DrawFloat64]\<rparr>\<rparr>) \<and>
   Next ieee counter
     \<lparr>probability = [Fin (1 / 2), Fin 1], alias_tab = [1, 0], seed = 0,
      rand = \<lparr>src = 2, drawn = []\<rparr>\<rparr> =
   Inr (1, \<lparr>probability = [Fin (1 / 2), Fin 1], alias_tab = [1, 0], seed = 0,
            rand = \<lparr>src = 4, drawn = [DrawIntn 2, DrawFloat64]\<rparr>\<rparr>)"
  using Next_two_draws[of "\<lparr>probability = [Fin (1 / 2), Fin 1], alias_tab = [1, 0], seed = 0,
      rand = \<lparr>src = 0, drawn = []\<rparr>\<rparr>" counter 0 1 "Fin (1 / 4)" 2 ieee]
    Next_two_draws[of "\<lparr>probability = [Fin (1 / 2), Fin 1], alias_tab = [1, 0], seed = 0,
      rand = \<lparr>src = 2, drawn = []\<rparr>\<rparr>" counter 0 3 "Fin (3 / 4)" 4 ieee]
  by (simp add: counter_def ieee_def lt64_def)

text \<open>
  C3. A sampler built from a non-empty weight sequence of length \<open>n\<close>, whatever the
  weights, has every alias entry in \<open>[0, n)\<close>; with a generator whose \<^verbatim>\<open>Intn\<close> keeps
  its contract, any number of calls of \<^verbatim>\<open>Next\<close> return without a panic and every
  index returned is in \<open>[0, n)\<close>.
\<close>

theorem Next_in_range:
  assumes "probs \<noteq> []" and "Intn_in_range R" and "InitWithSeed A R probs sd = Inr s"
  shows "length (probability s) = length probs \<and> length (alias_tab s) = length probs \<and>
         (\<forall>a \<in> set (alias_tab s). 0 \<le> a \<and> a < int (length probs)) \<and>
         (\<exists>rs s'. NextN A R k s = Inr (rs, s') \<and> length rs = k \<and>
            (\<forall>r \<in> set rs. 0 \<le> r \<and> r < int (length probs)))"
proof -
  from InitWithSeed_ok[OF assms(1), of A R sd] assms(3) obtain st where st:
    "vose_inv A (length probs) st" "alias_tab s = alias_tab st"
    "length (probability s) = length probs"
    by auto
  from st(1) have al: "length (alias_tab st) = length probs"
    "\<forall>a \<in> set (alias_tab st). 0 \<le> a \<and> a < int (length probs)"
    unfolding vose_inv_def by blast+
  have 1: "0 < length (probability s)" using assms(1) st(3) by simp
  have 2: "length (alias_tab s) = length (probability s)" using al(1) st(2,3) by simp
  have 3: "\<forall>a \<in> set (alias_tab s). 0 \<le> a \<and> a < int (length (probability s))"
    using al(2) st(2,3) by simp
  from NextN_in_table[OF assms(2) 1 2 3, of A k] show ?thesis
    using st(2,3) al by auto
qed

theorem Next_in_range_witness:
  "\<exists>s. InitWithSeed ieee counter [NaN, NInf, Fin (- 1), Fin 0] 7 = Inr s \<and>
       (\<forall>a \<in> set (alias_tab s). 0 \<le> a \<and> a < 4) \<and>
       (\<exists>rs s'. NextN ieee counter 10 s = Inr (rs, s') \<and> length rs = 10 \<and>
          (\<forall>r \<in> set rs. 0 \<le> r \<and> r < 4))"
proof -
  obtain s where s: "InitWithSeed ieee counter [NaN, NInf, Fin (- 1), Fin 0] 7 = Inr s"
    using InitWithSeed_ok[of "[NaN, NInf, Fin (- 1), Fin 0]" ieee counter 7] by auto
  from Next_in_range[OF _ Intn_in_range_counter s, of 10] s show ?thesis by simp
qed

text \<open>
  C4. \<^verbatim>\<open>InitWithSeed\<close> fails exactly for the empty weight sequence, with the
  \<^verbatim>\<open>SampleError\<close> and no sampler; for every non-empty sequence, whatever its values
  and whatever the arithmetic does with them, it returns a sampler and neither an error
  nor a panic. \<^verbatim>\<open>Init\<close> is \<^verbatim>\<open>InitWithSeed\<close> at a seed drawn from the global source.
\<close>

theorem InitWithSeed_error_iff_empty:
  "((\<exists>e. InitWithSeed A R probs sd = Inl e) \<longleftrightarrow> probs = []) \<and>
   (probs = [] \<longrightarrow> InitWithSeed A R probs sd = Inl (SampleError ''no probabilities provided'')) \<and>
   ((\<exists>s. InitWithSeed A R probs sd = Inr s) \<longleftrightarrow> probs \<noteq> []) \<and>
   fst (Init A R g probs) = InitWithSeed A R probs (fst (Int63_raw R g))"
proof -
  have e: "probs = [] \<Longrightarrow> InitWithSeed A R probs sd = Inl (SampleError ''no probabilities provided'')"
    by (simp add: InitWithSeed_def)
  have ne: "probs \<noteq> [] \<Longrightarrow> \<exists>s. InitWithSeed A R probs sd = Inr s"
    using InitWithSeed_ok[of probs A R sd] by auto
  have i: "fst (Init A R g probs) = InitWithSeed A R probs (fst (Int63_raw R g))"
    by (simp add: Init_def split: prod.splits)
  from e ne i show ?thesis by (cases "probs = []") auto
qed

theorem InitWithSeed_error_iff_empty_witness:
  "(\<exists>s. InitWithSeed ieee counter [NaN, PInf, Fin (- 1), Fin 0] 7 = Inr s) \<and>
   InitWithSeed ieee counter [] 7 = Inl (SampleError ''no probabilities provided'') \<and>
   (\<exists>s. fst (Init ieee counter 5 [Fin 0, Fin 0]) = Inr s)"
  using InitWithSeed_error_iff_empty[of ieee counter "[NaN, PInf, Fin (- 1), Fin 0]" 7 5]
    InitWithSeed_error_iff_empty[of ieee counter "[]" 7 5]
    InitWithSeed_error_iff_empty[of ieee counter "[Fin 0, Fin 0]" "fst (Int63_raw counter 5)" 5]
  by simp

text \<open>
  C5. The populating loop sends index \<open>j\<close> to \<open>large\<close> exactly when the comparison
  \<open>probs2[j] >= average\<close> holds and to \<open>small\<close> otherwise, in index order; an
  iteration of the pairing loop that returns has pushed \<open>more\<close> on \<open>large\<close> exactly
  when the same comparison holds for its new weight, and on \<open>small\<close> otherwise. The
  comparison is the one of the arithmetic, applied to the values as they are. So a weight
  for which \<open><\<close> holds goes to \<open>small\<close> wherever \<open><\<close> excludes \<open>>=\<close>, and a
  weight equal to the average goes to \<open>large\<close> wherever the average is \<open>>=\<close> itself.
\<close>

theorem classification_by_ge:
  assumes "probs \<noteq> []"
  shows "(\<exists>st. populated A probs = Inr st \<and>
           large st = map int (filter (\<lambda>j. fge A (normalize A probs ! j) (average A (length probs)))
                        [0..<length probs]) \<and>
           small st = map int (filter (\<lambda>j. \<not> fge A (normalize A probs ! j) (average A (length probs)))
                        [0..<length probs]) \<and>
           (\<forall>j < length probs.
              (flt A (normalize A probs ! j) (average A (length probs)) \<and>
               (\<forall>x y. flt A x y \<longrightarrow> \<not> fge A x y) \<longrightarrow> int j \<in> set (small st)) \<and>
              (normalize A probs ! j = average A (length probs) \<and>
               fge A (average A (length probs)) (average A (length probs)) \<longrightarrow>
                 int j \<in> set (large st)))) \<and>
         (pair_step A (int (length probs)) (average A (length probs)) s = Inr s' \<and>
          length (probs2 s) = length probs \<longrightarrow>
            probs2 s' ! nat (last (large s)) =
              fsub A (fadd A (probs2 s ! nat (last (large s))) (probs2 s ! nat (last (small s))))
                (average A (length probs)) \<and>
            (if fge A (probs2 s' ! nat (last (large s))) (average A (length probs))
             then large s' = butlast (large s) @ [last (large s)] \<and> small s' = butlast (small s)
             else small s' = butlast (small s) @ [last (large s)] \<and> large s' = butlast (large s)))"
proof
  show "\<exists>st. populated A probs = Inr st \<and>
           large st = map int (filter (\<lambda>j. fge A (normalize A probs ! j) (average A (length probs)))
                        [0..<length probs]) \<and>
           small st = map int (filter (\<lambda>j. \<not> fge A (normalize A probs ! j) (average A (length probs)))
                        [0..<length probs]) \<and>
           (\<forall>j < length probs.
              (flt A (normalize A probs ! j) (average A (length probs)) \<and>
               (\<forall>x y. flt A x y \<longrightarrow> \<not> fge A x y) \<longrightarrow> int j \<in> set (small st)) \<and>
              (normalize A probs ! j = average A (length probs) \<and>
               fge A (average A (length probs)) (average A (length probs)) \<longrightarrow>
                 int j \<in> set (large st)))"
    by (rule exI[of _ "populated_state A probs"])
       (auto simp: populated_eq populated_state_def)
next
  show "pair_step A (int (length probs)) (average A (length probs)) s = Inr s' \<and>
         length (probs2 s) = length probs \<longrightarrow>
           probs2 s' ! nat (last (large s)) =
             fsub A (fadd A (probs2 s ! nat (last (large s))) (probs2 s ! nat (last (small s))))
               (average A (length probs)) \<and>
           (if fge A (probs2 s' ! nat (last (large s))) (average A (length probs))
            then large s' = butlast (large s) @ [last (large s)] \<and> small s' = butlast (small s)
            else small s' = butlast (small s) @ [last (large s)] \<and> large s' = butlast (large s))"
    using pair_step_classifies[of A "int (length probs)" "average A (length probs)" s s']
    by (auto simp: average_def)
qed

theorem classification_by_ge_witness:
  "(\<exists>st. populated ieee [Fin 1, Fin 1, Fin 0] = Inr st \<and> large st = [0, 1] \<and> small st = [2]) \<and>
   (\<exists>st. populated ieee [Fin 1, Fin 1] = Inr st \<and> large st = [0, 1] \<and> small st = []) \<and>
   pair_step ieee 2 (Fin (1 / 2))
     \<lparr>probability = [Fin 0, Fin 0], alias_tab = [0, 0],
      probs2 = [Fin (1 / 4), Fin (3 / 4)], small = [0], large = [1]\<rparr> =
   Inr \<lparr>probability = [Fin (1 / 2), Fin 0], alias_tab = [1, 0],
        probs2 = [Fin (1 / 4), Fin (1 / 2)], small = [], large = [1]\<rparr>"
proof -
  obtain t where t: "rne (1 / 3) = Fin t" "1 / 4 \<le> t" "t \<le> 1 / 2"
    using rne_between[of "1 / 4" "1 / 3" "1 / 2"] by (auto simp: rne_numerals)
  have a: "\<exists>st. populated ieee [Fin 1, Fin 1, Fin 0] = Inr st \<and> large st = [0, 1] \<and> small st = [2]"
    using classification_by_ge[of "[Fin 1, Fin 1, Fin 0]" ieee] t
    by (simp add: ieee_def normalize_def total_def average_def rne_numerals) blast
  have b: "\<exists>st. populated ieee [Fin 1, Fin 1] = Inr st \<and> large st = [0, 1] \<and> small st = []"
    using classification_by_ge[of "[Fin 1, Fin 1]" ieee]
    by (simp add: ieee_def normalize_def total_def average_def rne_numerals) blast
  have c: "pair_step ieee 2 (Fin (1 / 2))
     \<lparr>probability = [Fin 0, Fin 0], alias_tab = [0, 0],
      probs2 = [Fin (1 / 4), Fin (3 / 4)], small = [0], large = [1]\<rparr> =
   Inr \<lparr>probability = [Fin (1 / 2), Fin 0], alias_tab = [1, 0],
        probs2 = [Fin (1 / 4), Fin (1 / 2)], small = [], large = [1]\<rparr>"
    using classification_by_ge[of "[Fin 1, Fin 3]" ieee
        "\<lparr>probability = [Fin 0, Fin 0], alias_tab = [0, 0],
          probs2 = [Fin (1 / 4), Fin (3 / 4)], small = [0], large = [1]\<rparr>"
        "\<lparr>probability = [Fin (1 / 2), Fin 0], alias_tab = [1, 0],
          probs2 = [Fin (1 / 4), Fin (1 / 2)], small = [], large = [1]\<rparr>"]
    by (simp add: pair_step_def and_then_def PopBack_def PushBack_def index_def assign_def
        ieee_def sub64_def rne_numerals)
  from a b c show ?thesis by blast
qed

text \<open>
  C6. The drain step sets the cutoff of every index that the pairing loop left in a
  worklist to 1.0 and leaves its alias entry at the initial 0. Every other index has the
  cutoff that the pairing loop gave it, its final working weight times \<open>n\<close>: on return
  no entry of \<open>probability\<close> is unassigned.
\<close>

theorem drain_assigns_remaining:
  assumes "probs \<noteq> []"
  shows "\<exists>st s. paired A probs = Inr st \<and> (small st = [] \<or> large st = []) \<and>
           InitWithSeed A R probs sd = Inr s \<and>
           length (probability s) = length probs \<and> length (alias_tab s) = length probs \<and>
           (\<forall>j < length probs.
              if int j \<in> set (small st) \<union> set (large st)
              then probability s ! j = fone A \<and> alias_tab s ! j = 0
              else probability s ! j =
                     fmul A (probs2 st ! j) (float64_of A (int (length probs))) \<and>
                   alias_tab s ! j = alias_tab st ! j)"
proof -
  from InitWithSeed_ok[OF assms, of A R sd] obtain st pr where st:
    "paired A probs = Inr st" "vose_inv A (length probs) st" "small st = [] \<or> large st = []"
    "InitWithSeed A R probs sd =
       Inr \<lparr>probability = pr, alias_tab = alias_tab st, seed = sd, rand = New R sd\<rparr>"
    "length pr = length probs"
    "\<forall>j < length probs. pr ! j = (if int j \<in> worklist st then fone A else probability st ! j)"
    by blast
  from st(2) have al: "length (alias_tab st) = length probs"
    and wl: "\<And>i. i \<in> worklist st \<Longrightarrow> alias_tab st ! nat i = 0"
    and dn: "\<And>i. i < length probs \<Longrightarrow> int i \<notin> worklist st \<Longrightarrow>
               probability st ! i = fmul A (probs2 st ! i) (float64_of A (int (length probs)))"
    unfolding vose_inv_def by blast+
  have "\<forall>j < length probs.
          if int j \<in> set (small st) \<union> set (large st)
          then pr ! j = fone A \<and> alias_tab st ! j = 0
          else pr ! j = fmul A (probs2 st ! j) (float64_of A (int (length probs))) \<and>
               alias_tab st ! j = alias_tab st ! j"
  proof (intro allI impI)
    fix j assume j: "j < length probs"
    show "if int j \<in> set (small st) \<union> set (large st)
          then pr ! j = fone A \<and> alias_tab st ! j = 0
          else pr ! j = fmul A (probs2 st ! j) (float64_of A (int (length probs))) \<and>
               alias_tab st ! j = alias_tab st ! j"
    proof (cases "int j \<in> worklist st")
      case True
      with wl[OF True] st(6) j show ?thesis by (simp add: worklist_def)
    next
      case False
      with dn[OF j False] st(6) j show ?thesis by (simp add: worklist_def)
    qed
  qed
  with st(1,3,4,5) al show ?thesis by auto
qed

theorem drain_assigns_remaining_witness:
  "\<exists>st s. paired ieee [Fin 1, Fin 3] = Inr st \<and> (small st = [] \<or> large st = []) \<and>
     InitWithSeed ieee counter [Fin 1, Fin 3] 7 = Inr s \<and>
     length (probability s) = length [Fin 1, Fin 3] \<and>
     length (alias_tab s) = length [Fin 1, Fin 3] \<and>
     (\<forall>j < length [Fin 1, Fin 3].
        if int j \<in> set (small st) \<union> set (large st)
        then probability s ! j = fone ieee \<and> alias_tab s ! j = 0
        else probability s ! j =
               fmul ieee (probs2 st ! j) (float64_of ieee (int (length [Fin 1, Fin 3]))) \<and>
             alias_tab s ! j = alias_tab st ! j)"
  using drain_assigns_remaining[of "[Fin 1, Fin 3]" ieee counter 7]
  by simp

text \<open>
  C10. For a non-empty weight sequence the populating loop returns worklists of combined
  size \<open>n\<close>, and the pairing loop started there returns, with one worklist empty, after
  at most \<open>n - 1\<close> iterations. Every iteration that returns has made the combined size
  of the worklists smaller by exactly one.
\<close>

theorem pairing_loop_terminates:
  assumes "probs \<noteq> []"
  shows "(\<exists>st1 st. populated A probs = Inr st1 \<and>
           length (small st1) + length (large st1) = length probs \<and>
           pair_loop A (int (length probs)) (average A (length probs)) st1 = Inr st \<and>
           (small st = [] \<or> large st = []) \<and>
           iterations A (int (length probs)) (average A (length probs)) st1 \<le> length probs - 1) \<and>
         (pair_step A m avg s = Inr s' \<longrightarrow>
           length (small s') + length (large s') + 1 = length (small s) + length (large s))"
proof
  let ?st1 = "populated_state A probs"
  from pair_loop_rule[of A "length probs" ?st1 "\<lambda>_. True", OF vose_inv_populated[OF assms]]
  obtain st where "pair_loop A (int (length probs)) (average A (length probs)) ?st1 = Inr st"
    "small st = [] \<or> large st = []" by auto
  moreover have "iterations A (int (length probs)) (average A (length probs)) ?st1
      \<le> length probs - 1"
    using iterations_bound[OF vose_inv_populated[OF assms], of A] size_populated[of A probs]
    by simp
  ultimately show "\<exists>st1 st. populated A probs = Inr st1 \<and>
           length (small st1) + length (large st1) = length probs \<and>
           pair_loop A (int (length probs)) (average A (length probs)) st1 = Inr st \<and>
           (small st = [] \<or> large st = []) \<and>
           iterations A (int (length probs)) (average A (length probs)) st1 \<le> length probs - 1"
    using populated_eq[of A probs] size_populated[of A probs] by blast
next
  show "pair_step A m avg s = Inr s' \<longrightarrow>
           length (small s') + length (large s') + 1 = length (small s) + length (large s)"
    using pair_step_size[of A m avg s s'] by blast
qed

theorem pairing_loop_terminates_witness:
  "(\<exists>st1 st. populated ieee [Fin 1, Fin 3] = Inr st1 \<and>
     length (small st1) + length (large st1) = length [Fin 1, Fin 3] \<and>
     pair_loop ieee (int (length [Fin 1, Fin 3])) (average ieee (length [Fin 1, Fin 3])) st1 = Inr st \<and>
     (small st = [] \<or> large st = []) \<and>
     iterations ieee (int (length [Fin 1, Fin 3])) (average ieee (length [Fin 1, Fin 3])) st1
       \<le> length [Fin 1, Fin 3] - 1) \<and>
   pair_step ieee 2 (Fin (1 / 2))
     \<lparr>probability = [Fin 0, Fin 0], alias_tab = [0, 0],
      probs2 = [Fin (1 / 4), Fin (3 / 4)], small = [0], large = [1]\<rparr> =
   Inr \<lparr>probability = [Fin (1 / 2), Fin 0], alias_tab = [1, 0],
        probs2 = [Fin (1 / 4), Fin (1 / 2)], small = [], large = [1]\<rparr>"
  using pairing_loop_terminates[of "[Fin 1, Fin 3]" ieee 2 "Fin (1 / 2)"
        "\<lparr>probability = [Fin 0, Fin 0], alias_tab = [0, 0],
          probs2 = [Fin (1 / 4), Fin (3 / 4)], small = [0], large = [1]\<rparr>"
        "\<lparr>probability = [Fin (1 / 2), Fin 0], alias_tab = [1, 0],
          probs2 = [Fin (1 / 4), Fin (1 / 2)], small = [], large = [1]\<rparr>"]
  by (simp add: pair_step_def and_then_def PopBack_def PushBack_def index_def assign_def
        ieee_def sub64_def rne_numerals)

text \<open>
  C7. For the single weight 1.0 the construction returns the table with cutoff 1.0 and
  alias 0 at index 0, and with a generator whose \<^verbatim>\<open>Intn\<close> keeps its contract any number
  of calls of \<^verbatim>\<open>Next\<close> return index 0 every time.
\<close>

theorem single_outcome:
  "\<exists>s. InitWithSeed A R [fone A] sd = Inr s \<and> probability s = [fone A] \<and> alias_tab s = [0] \<and>
       (Intn_in_range R \<longrightarrow> (\<exists>s'. NextN A R k s = Inr (replicate k 0, s')))"
proof -
  let ?probs = "[fone A]"
  have ne: "?probs \<noteq> []" by simp
  have init: "worklist (populated_state A ?probs) \<noteq> {}"
    by (auto simp: worklist_populated)
  from InitWithSeed_rule[of ?probs "\<lambda>st. worklist st \<noteq> {}" A R sd, OF ne init
      worklist_pair_next_nonempty]
  obtain st pr where st: "vose_inv A 1 st" "worklist st \<noteq> {}"
    and s: "InitWithSeed A R ?probs sd =
       Inr \<lparr>probability = pr, alias_tab = alias_tab st, seed = sd, rand = New R sd\<rparr>"
    and pr: "length pr = 1" "pr ! 0 = (if 0 \<in> worklist st then fone A else probability st ! 0)"
    by auto
  let ?s = "\<lparr>probability = pr, alias_tab = alias_tab st, seed = sd, rand = New R sd\<rparr>"
  from st(1) have wl: "\<forall>i \<in> worklist st. 0 \<le> i \<and> i < 1"
    and al: "length (alias_tab st) = 1" "\<forall>a \<in> set (alias_tab st). 0 \<le> a \<and> a < 1"
    unfolding vose_inv_def by auto
  from st(2) obtain i where i: "i \<in> worklist st" by blast
  with wl have "i = 0" by force
  with i have "0 \<in> worklist st" by simp
  with pr have p: "pr = [fone A]"
    by (cases pr) auto
  from al have a: "alias_tab st = [0]"
    by (cases "alias_tab st") auto
  have draws: "\<exists>s'. NextN A R k ?s = Inr (replicate k 0, s')" if R: "Intn_in_range R"
  proof -
    from NextN_in_table[OF R, of ?s A k] p a obtain rs r' where rs:
      "NextN A R k ?s = Inr (rs, ?s\<lparr>rand := r'\<rparr>)" "length rs = k"
      "\<forall>r \<in> set rs. 0 \<le> r \<and> r < 1"
      by auto
    from rs(3) have "\<forall>r \<in> set rs. r = 0" by auto
    then have "replicate (length rs) 0 = rs"
      by (intro replicate_length_same) simp
    with rs(2) have "rs = replicate k 0" by simp
    with rs(1) show ?thesis by blast
  qed
  from s p a draws show ?thesis by auto
qed

theorem single_outcome_witness:
  "\<exists>s. InitWithSeed ieee counter [Fin 1] 7 = Inr s \<and> probability s = [Fin 1] \<and> alias_tab s = [0] \<and>
       (\<exists>s'. NextN ieee counter 5 s = Inr ([0, 0, 0, 0, 0], s'))"
  using single_outcome[of ieee counter 7 5] Intn_in_range_counter
  by (simp add: ieee_def numeral_eq_Suc)

section \<open>The arithmetic of ieee on the values of the construction\<close>

lemma ieee_fields:
  "fzero ieee = Fin 0" "fone ieee = Fin 1" "fadd ieee = add64" "fsub ieee = sub64"
  "fmul ieee = mul64" "fdiv ieee = div64" "fge ieee = ge64" "flt ieee = lt64"
  "float64_of ieee n = rne (real_of_int n)"
  by (simp_all add: ieee_def)

lemma nonneg64E:
  assumes "nonneg64 a"
  obtains "a = PInf" | x where "a = Fin x" "0 \<le> x" "rne x = Fin x"
  using assms by (cases a) (simp_all add: nonneg64_def)

lemma nonneg64_rne: "0 \<le> x \<Longrightarrow> nonneg64 (rne x)"
  by (erule rne_nonneg) (simp_all add: nonneg64_def)

lemma unit_range_rne: "0 \<le> x \<Longrightarrow> x \<le> 1 \<Longrightarrow> unit_range (rne x)"
  by (erule (1) rne_unit) (simp add: unit_range_def)

lemma unit_rangeE:
  assumes "unit_range a"
  obtains x where "a = Fin x" "0 \<le> x" "x \<le> 1"
  using assms by (cases a) (simp_all add: unit_range_def)

text \<open>The length as a float64 and the average: a value in \<open>[0, 1]\<close>.\<close>

lemma length_ieee:
  assumes "0 < n"
  obtains "float64_of ieee (int n) = PInf"
  | c where "float64_of ieee (int n) = Fin c" "1 \<le> c"
proof -
  have n: "0 \<le> real n" "1 \<le> real n" using assms by simp_all
  show ?thesis
  proof (rule rne_nonneg[OF n(1)])
    assume "rne (real n) = PInf"
    then show ?thesis using that(1) by (simp add: ieee_fields)
  next
    fix a assume a: "rne (real n) = Fin a"
    from rne_mono_Fin[OF n(2) _ a] have "1 \<le> a" by (simp add: rne_numerals)
    with a show ?thesis using that(2) by (simp add: ieee_fields)
  qed
qed

lemma average_ieee:
  assumes "0 < n"
  obtains a where "average ieee n = Fin a" "0 \<le> a" "a \<le> 1" "rne a = Fin a"
proof (rule length_ieee[OF assms])
  assume "float64_of ieee (int n) = PInf"
  then have "average ieee n = Fin 0" by (simp add: average_def ieee_fields)
  then show ?thesis using that by (simp add: rne_numerals)
next
  fix c assume c: "float64_of ieee (int n) = Fin c" "1 \<le> c"
  then have "average ieee n = rne (1 / c)" by (simp add: average_def ieee_fields)
  moreover have "0 \<le> 1 / c" "1 / c \<le> 1" using c(2) by simp_all
  ultimately show ?thesis using that by (metis rne_unit)
qed

text \<open>A weight below the average has a cutoff in \<open>[0, 1]\<close>.\<close>

lemma cutoff_unit:
  assumes n: "0 < n" and y: "0 \<le> y" "rne y = Fin y"
    and lt: "\<not> ge64 (Fin y) (average ieee n)"
  shows "unit_range (mul64 (Fin y) (float64_of ieee (int n)))"
proof (rule length_ieee[OF n])
  assume inf: "float64_of ieee (int n) = PInf"
  then have "average ieee n = Fin 0" by (simp add: average_def ieee_fields)
  with lt y(1) show ?thesis by simp
next
  fix c assume c: "float64_of ieee (int n) = Fin c" "1 \<le> c"
  then have avg: "average ieee n = rne (1 / c)" by (simp add: average_def ieee_fields)
  have "0 \<le> 1 / c" "1 / c \<le> 1" using c(2) by simp_all
  then obtain a where a: "rne (1 / c) = Fin a" by (rule rne_unit)
  from lt have ya: "y < a" by (simp add: avg a)
  have "y * c \<le> 1"
  proof (rule ccontr)
    assume "\<not> y * c \<le> 1"
    then have "1 / c \<le> y" using c(2) by (simp add: divide_le_eq)
    from rne_mono_Fin[OF this a y(2)] ya show False by simp
  qed
  moreover have "0 \<le> y * c" using y(1) c(2) by simp
  ultimately have "unit_range (rne (y * c))" by (intro unit_range_rne)
  then show ?thesis by (simp add: c(1))
qed

text \<open>The new weight of the larger index is again non-negative.\<close>

lemma surplus_nonneg:
  assumes p: "nonneg64 p" and ge: "ge64 p (Fin a)" and y: "0 \<le> y"
  shows "nonneg64 (sub64 (add64 p (Fin y)) (Fin a))"
proof (rule nonneg64E[OF p])
  assume "p = PInf"
  then show ?thesis by (simp add: sub64_def nonneg64_def)
next
  fix x assume x: "p = Fin x" "0 \<le> x" "rne x = Fin x"
  from ge have xa: "a \<le> x" by (simp add: x(1))
  have xy: "0 \<le> x + y" "x \<le> x + y" using x(2) y by simp_all
  show ?thesis
  proof (rule rne_nonneg[OF xy(1)])
    assume "rne (x + y) = PInf"
    then show ?thesis by (simp add: x(1) sub64_def nonneg64_def)
  next
    fix s assume s: "rne (x + y) = Fin s"
    from rne_mono_Fin[OF xy(2) x(3) s] xa have "0 \<le> s + - a" by simp
    then have "nonneg64 (rne (s + - a))" by (rule nonneg64_rne)
    then show ?thesis by (simp add: x(1) s sub64_def)
  qed
qed

text \<open>The sum of non-negative values is not below any of them.\<close>

lemma foldl_add64_PInf: "foldl add64 PInf (map Fin ws) = PInf"
  by (induction ws) simp_all

lemma foldl_add64_nonneg:
  assumes "0 \<le> s" "rne s = Fin s" "\<forall>w \<in> set ws. 0 \<le> w \<and> rne w = Fin w"
  shows "foldl add64 (Fin s) (map Fin ws) = PInf \<or>
         (\<exists>t. foldl add64 (Fin s) (map Fin ws) = Fin t \<and> rne t = Fin t \<and> s \<le> t \<and>
              (\<forall>w \<in> set ws. w \<le> t))"
  using assms
proof (induction ws arbitrary: s)
  case Nil
  then show ?case by simp
next
  case (Cons w ws)
  then have w: "0 \<le> w" "rne w = Fin w" and ws: "\<forall>w \<in> set ws. 0 \<le> w \<and> rne w = Fin w"
    by simp_all
  have sw: "0 \<le> s + w" "s \<le> s + w" "w \<le> s + w" using Cons.prems(1) w(1) by simp_all
  show ?case
  proof (rule rne_nonneg[OF sw(1)])
    assume "rne (s + w) = PInf"
    then show ?thesis by (simp add: foldl_add64_PInf)
  next
    fix u assume u: "rne (s + w) = Fin u" "0 \<le> u" "rne u = Fin u"
    from rne_mono_Fin[OF sw(2) Cons.prems(2) u(1)] have su: "s \<le> u" .
    from rne_mono_Fin[OF sw(3) w(2) u(1)] have wu: "w \<le> u" .
    from Cons.IH[OF u(2,3) ws] su wu show ?thesis
      by (auto simp: u(1))
  qed
qed

lemma normalize_nonneg:
  assumes nn: "\<forall>w \<in> set ws. 0 \<le> w \<and> rne w = Fin w" and nz: "\<exists>w \<in> set ws. w \<noteq> 0"
    and i: "i < length ws"
  shows "nonneg64 (normalize ieee (map Fin ws) ! i)"
proof -
  have wi: "0 \<le> ws ! i" using nn i by simp
  have n: "normalize ieee (map Fin ws) ! i = div64 (Fin (ws ! i)) (total ieee (map Fin ws))"
    using i by (simp add: normalize_def ieee_fields)
  from foldl_add64_nonneg[of 0 ws] nn
  consider "total ieee (map Fin ws) = PInf"
    | t where "total ieee (map Fin ws) = Fin t" "\<forall>w \<in> set ws. w \<le> t"
    by (auto simp: total_def ieee_fields rne_numerals)
  then show ?thesis
  proof cases
    case 1
    then show ?thesis by (simp add: n nonneg64_def rne_numerals)
  next
    case 2
    from nz nn obtain w where "w \<in> set ws" "0 < w" by force
    with 2(2) have t: "0 < t" by force
    then have "0 \<le> ws ! i / t" using wi by simp
    then have "nonneg64 (rne (ws ! i / t))" by (rule nonneg64_rne)
    then show ?thesis using t by (simp add: n 2(1))
  qed
qed

section \<open>The ranges of the table\<close>

lemma bounded_inv_populated:
  assumes "\<forall>w \<in> set ws. 0 \<le> w \<and> rne w = Fin w" "\<exists>w \<in> set ws. w \<noteq> 0"
  shows "bounded_inv (length ws) (populated_state ieee (map Fin ws))"
  using normalize_nonneg[OF assms]
  by (simp add: bounded_inv_def populated_state_def start_def ieee_fields unit_range_def)

lemma pair_next_facts:
  assumes I: "vose_inv A n st" and s: "small st \<noteq> []" and g: "large st \<noteq> []"
  shows "worklist (pair_next A n st) = worklist st - {last (small st)}"
    and "last (small st) \<in> worklist st" and "last (large st) \<in> worklist st"
    and "0 \<le> last (small st)" and "last (small st) < int n"
    and "0 \<le> last (large st)" and "last (large st) < int n"
    and "last (small st) \<noteq> last (large st)"
proof -
  have dist: "distinct (small st @ large st)"
    and wl: "\<And>i. i \<in> worklist st \<Longrightarrow> 0 \<le> i \<and> i < int n"
    using I unfolding vose_inv_def by blast+
  have less_in: "last (small st) \<in> set (small st)" and more_in: "last (large st) \<in> set (large st)"
    using s g by simp_all
  show l: "last (small st) \<in> worklist st" and m: "last (large st) \<in> worklist st"
    using less_in more_in by (simp_all add: worklist_def)
  show "0 \<le> last (small st)" "last (small st) < int n"
    "0 \<le> last (large st)" "last (large st) < int n"
    using wl l m by blast+
  have d1: "distinct (small st)" and d3: "set (small st) \<inter> set (large st) = {}"
    using dist by auto
  show lm: "last (small st) \<noteq> last (large st)"
    using less_in more_in d3 by auto
  have ss: "set (small st) = insert (last (small st)) (set (butlast (small st)))"
    and sl: "set (large st) = insert (last (large st)) (set (butlast (large st)))"
    using s g by (simp_all add: set_butlast_last)
  have nb: "last (small st) \<notin> set (butlast (small st))"
    using d1 s by (simp add: last_notin_butlast)
  have nl: "last (small st) \<notin> set (large st)"
    using less_in d3 by auto
  have "set (butlast (large st)) \<subseteq> set (large st)"
    by (auto dest: in_set_butlastD)
  with nl have nbl: "last (small st) \<notin> set (butlast (large st))" by auto
  have sm': "set (small (pair_next A n st)) \<union> set (large (pair_next A n st)) =
      set (butlast (small st)) \<union> insert (last (large st)) (set (butlast (large st)))"
    by (auto simp: pair_next_def Let_def)
  show "worklist (pair_next A n st) = worklist st - {last (small st)}"
    unfolding worklist_def sm'
    using ss sl nb nbl lm by auto
qed

lemma bounded_inv_pair_next:
  assumes I: "vose_inv ieee n st" and B: "bounded_inv n st"
    and s: "small st \<noteq> []" and g: "large st \<noteq> []"
  shows "bounded_inv n (pair_next ieee n st)"
proof -
  let ?l = "nat (last (small st))" and ?m = "nat (last (large st))"
  from B have B2: "\<forall>i < n. nonneg64 (probs2 st ! i)"
    and Bp: "\<forall>i < n. unit_range (probability st ! i)"
    unfolding bounded_inv_def by blast+
  note f = pair_next_facts[OF I s g]
  have l: "?l < n" and m: "?m < n" using f(4-7) by simp_all
  then have n: "0 < n" by simp
  have len: "length (probs2 st) = n" "length (probability st) = n"
    using I unfolding vose_inv_def by blast+
  obtain a where a: "average ieee n = Fin a" "0 \<le> a"
    using average_ieee[OF n] by blast
  have sm: "\<not> ge64 (probs2 st ! ?l) (average ieee n)"
    using I s unfolding vose_inv_def by (simp add: ieee_fields)
  have lg: "ge64 (probs2 st ! ?m) (average ieee n)"
    using I g unfolding vose_inv_def by (simp add: ieee_fields)
  from B2 l have "nonneg64 (probs2 st ! ?l)" by simp
  then obtain y where y: "probs2 st ! ?l = Fin y" "0 \<le> y" "rne y = Fin y"
  proof (rule nonneg64E)
    assume "probs2 st ! ?l = PInf"
    with sm a(1) show ?thesis by simp
  qed
  from B2 m have pm: "nonneg64 (probs2 st ! ?m)" by simp
  have u1: "nonneg64 (fsub ieee (fadd ieee (probs2 st ! ?m) (probs2 st ! ?l)) (average ieee n))"
    using surplus_nonneg[OF pm _ y(2), of a] lg by (simp add: ieee_fields y(1) a(1))
  have u2: "unit_range (fmul ieee (probs2 st ! ?l) (float64_of ieee (int n)))"
    using cutoff_unit[OF n y(2,3)] sm by (simp add: ieee_fields y(1))
  have "nonneg64 (probs2 (pair_next ieee n st) ! i)" if "i < n" for i
    using that B2 u1 len by (cases "i = ?m") (simp_all add: pair_next_def Let_def)
  moreover have "unit_range (probability (pair_next ieee n st) ! i)" if "i < n" for i
    using that Bp u2 len by (cases "i = ?l") (simp_all add: pair_next_def Let_def)
  ultimately show ?thesis
    unfolding bounded_inv_def by blast
qed

text \<open>
  C8. Under \<open>ieee\<close>, for weights that are non-negative finite values of float64, not
  all zero, the construction returns tables of length \<open>n\<close> whose cutoffs are finite
  values in \<open>[0, 1]\<close> and whose alias entries are in \<open>[0, n - 1]\<close>.
\<close>

theorem table_ranges:
  assumes "ws \<noteq> []" and "\<forall>w \<in> set ws. 0 \<le> w \<and> rne w = Fin w" and "\<exists>w \<in> set ws. w \<noteq> 0"
  shows "\<exists>s. InitWithSeed ieee R (map Fin ws) sd = Inr s \<and>
           length (probability s) = length ws \<and> length (alias_tab s) = length ws \<and>
           (\<forall>i < length ws. \<exists>x. probability s ! i = Fin x \<and> 0 \<le> x \<and> x \<le> 1) \<and>
           (\<forall>i < length ws. 0 \<le> alias_tab s ! i \<and> alias_tab s ! i \<le> int (length ws) - 1)"
proof -
  let ?probs = "map Fin ws"
  have ne: "?probs \<noteq> []" using assms(1) by simp
  have init: "bounded_inv (length ?probs) (populated_state ieee ?probs)"
    using bounded_inv_populated[OF assms(2,3)] by simp
  from InitWithSeed_rule[of ?probs "bounded_inv (length ?probs)" ieee R sd, OF ne init
      bounded_inv_pair_next]
  obtain st pr where st: "vose_inv ieee (length ws) st" "bounded_inv (length ws) st"
    and s: "InitWithSeed ieee R ?probs sd =
       Inr \<lparr>probability = pr, alias_tab = alias_tab st, seed = sd, rand = New R sd\<rparr>"
    and pr: "length pr = length ws"
      "\<forall>j < length ws. pr ! j = (if int j \<in> worklist st then fone ieee else probability st ! j)"
    by auto
  from st(1) have al: "length (alias_tab st) = length ws"
    "\<forall>a \<in> set (alias_tab st). 0 \<le> a \<and> a < int (length ws)"
    unfolding vose_inv_def by blast+
  have a: "\<forall>i < length ws. 0 \<le> alias_tab st ! i \<and> alias_tab st ! i \<le> int (length ws) - 1"
    using al by (metis nth_mem zle_diff1_eq)
  have p: "\<forall>i < length ws. \<exists>x. pr ! i = Fin x \<and> 0 \<le> x \<and> x \<le> 1"
  proof (intro allI impI)
    fix i assume i: "i < length ws"
    show "\<exists>x. pr ! i = Fin x \<and> 0 \<le> x \<and> x \<le> 1"
    proof (cases "int i \<in> worklist st")
      case True
      with pr(2) i have "pr ! i = Fin 1" by (simp add: ieee_fields)
      then show ?thesis by simp
    next
      case False
      with pr(2) i have "pr ! i = probability st ! i" by simp
      moreover have "unit_range (probability st ! i)"
        using st(2) i unfolding bounded_inv_def by blast
      ultimately show ?thesis by (auto elim: unit_rangeE)
    qed
  qed
  from s pr(1) al(1) a p show ?thesis by simp
qed

theorem table_ranges_witness:
  "\<exists>s. InitWithSeed ieee counter (map Fin [1, 1, 2, 4, 0]) 7 = Inr s \<and>
       length (probability s) = length [1, 1, 2, 4, 0 :: real] \<and>
       length (alias_tab s) = length [1, 1, 2, 4, 0 :: real] \<and>
       (\<forall>i < length [1, 1, 2, 4, 0 :: real].
          \<exists>x. probability s ! i = Fin x \<and> 0 \<le> x \<and> x \<le> 1) \<and>
       (\<forall>i < length [1, 1, 2, 4, 0 :: real].
          0 \<le> alias_tab s ! i \<and> alias_tab s ! i \<le> int (length [1, 1, 2, 4, 0 :: real]) - 1)"
  using table_ranges[of "[1, 1, 2, 4, 0]" counter 7]
  by (simp add: rne_numerals)

section \<open>Runs on weights that the construction does not validate\<close>

lemma drain_Nil: "drain A [] pr = Inr ([], pr)"
  by (subst drain.simps) (simp add: Len_def)

lemma div64_zero: "div64 a (Fin 0) = NaN \<or> div64 a (Fin 0) = PInf \<or> div64 a (Fin 0) = NInf"
  by (cases a) simp_all

lemma normalize_zero_sum:
  assumes "total ieee ws = Fin 0" and "p \<in> set (normalize ieee ws)"
  shows "p = NaN \<or> p = PInf \<or> p = NInf"
  using assms div64_zero by (auto simp: normalize_def ieee_fields)

lemma total_zeros: "foldl add64 (Fin 0) (replicate n (Fin 0)) = Fin 0"
  by (induction n) (simp_all add: rne_numerals)

lemma normalize_zeros: "normalize ieee (replicate n (Fin 0)) = replicate n NaN"
  by (simp add: normalize_def total_def ieee_fields total_zeros)

lemma populated_zeros:
  "populated_state ieee (replicate n (Fin 0)) =
     \<lparr>probability = replicate n (Fin 0), alias_tab = replicate n 0,
      probs2 = replicate n NaN, small = map int [0..<n], large = []\<rparr>"
  by (simp add: populated_state_def start_def normalize_zeros ieee_fields cong: filter_cong)

lemma run_zeros:
  assumes "0 < n"
  shows "InitWithSeed ieee R (replicate n (Fin 0)) sd =
     Inr \<lparr>probability = replicate n (Fin 1), alias_tab = replicate n 0, seed = sd,
          rand = New R sd\<rparr>"
proof -
  let ?probs = "replicate n (Fin 0)"
  let ?st = "populated_state ieee ?probs"
  have ne: "?probs \<noteq> []" using assms by simp
  have p: "paired ieee ?probs = Inr ?st"
    apply (simp add: paired_def populated_eq and_then_def)
    apply (subst pair_loop.simps)
    apply (simp add: Len_def populated_zeros)
    done
  have I: "vose_inv ieee (length ?probs) ?st"
    using vose_inv_populated[OF ne] .
  from InitWithSeed_of_paired[OF ne p I, of R sd] obtain pr where pr:
    "InitWithSeed ieee R ?probs sd =
       Inr \<lparr>probability = pr, alias_tab = alias_tab ?st, seed = sd, rand = New R sd\<rparr>"
    "length pr = n"
    "\<forall>j < n. pr ! j = (if int j \<in> worklist ?st then fone ieee else probability ?st ! j)"
    by auto
  have "\<forall>j < n. pr ! j = Fin 1"
    using pr(3) by (simp add: worklist_populated ieee_fields)
  then have "pr = replicate n (Fin 1)"
    using pr(2) by (intro nth_equalityI) simp_all
  with pr(1) show ?thesis by (simp add: populated_zeros)
qed

lemma third_finite: obtains t where "rne (1 / 3) = Fin t"
proof -
  have "(0 :: real) \<le> 1 / 3" "(1 :: real) / 3 \<le> 1" by simp_all
  then show ?thesis using that by (rule rne_unit)
qed

lemma run_mixed:
  "InitWithSeed ieee R [Fin 1, Fin (- 1), Fin 0] sd =
     Inr \<lparr>probability = [Fin 1, Fin 1, NaN], alias_tab = [0, 0, 0], seed = sd,
          rand = New R sd\<rparr>"
proof -
  obtain t where t: "rne (1 / 3) = Fin t" by (rule third_finite)
  have avg: "average ieee 3 = Fin t" "fdiv ieee (fone ieee) (float64_of ieee 3) = Fin t"
    by (simp_all add: average_def ieee_fields rne_numerals t)
  have avg3: "average ieee (Suc (Suc (Suc 0))) = Fin t"
    using avg(1) by (simp add: numeral_3_eq_3)
  have n: "normalize ieee [Fin 1, Fin (- 1), Fin 0] = [PInf, NInf, NaN]"
    by (simp add: normalize_def total_def ieee_fields rne_numerals)
  have p: "populated_state ieee [Fin 1, Fin (- 1), Fin 0] =
      \<lparr>probability = [Fin 0, Fin 0, Fin 0], alias_tab = [0, 0, 0],
       probs2 = [PInf, NInf, NaN], small = [1, 2], large = [0]\<rparr>"
    by (simp add: populated_state_def start_def n avg3 ieee_fields upt_rec)
  have s: "pair_step ieee 3 (Fin t)
      \<lparr>probability = [Fin 0, Fin 0, Fin 0], alias_tab = [0, 0, 0],
       probs2 = [PInf, NInf, NaN], small = [1, 2], large = [0]\<rparr> =
      Inr \<lparr>probability = [Fin 0, Fin 0, NaN], alias_tab = [0, 0, 0],
           probs2 = [NaN, NInf, NaN], small = [1, 0], large = []\<rparr>"
    by (simp add: pair_step_def and_then_def PopBack_def PushBack_def index_def assign_def
        ieee_fields sub64_def avg)
  have l: "paired ieee [Fin 1, Fin (- 1), Fin 0] =
      Inr \<lparr>probability = [Fin 0, Fin 0, NaN], alias_tab = [0, 0, 0],
           probs2 = [NaN, NInf, NaN], small = [1, 0], large = []\<rparr>"
    apply (simp add: paired_def populated_eq p and_then_def avg avg3)
    apply (subst pair_loop.simps)
    apply (simp add: Len_def s)
    apply (subst pair_loop.simps)
    apply (simp add: Len_def)
    done
  have d: "drain ieee [1, 0] [Fin 0, Fin 0, NaN] = Inr ([], [Fin 1, Fin 1, NaN])"
    using drain_snoc[of 0 "[Fin 0, Fin 0, NaN]" ieee "[1]"]
      drain_snoc[of 1 "[Fin 1, Fin 0, NaN]" ieee "[]"]
    by (simp add: drain_Nil ieee_fields)
  show ?thesis
    by (simp add: InitWithSeed_def l d drain_Nil and_then_def)
qed

section \<open>The claims about weights outside the intended domain\<close>

text \<open>
  C9, as amended. The construction validates nothing: for every non-empty weight vector
  whose computed sum is zero it returns a sampler, and the normalising division makes
  every working weight NaN or an infinity. For weights that are all 0.0 every working
  weight is NaN, every index is classified small, the pairing loop does not run and the
  drain sets every cutoff to 1.0: the table holds no NaN. NaN does reach the table for
  other weights of sum zero: for \<open>1, -1, 0\<close> the cutoff of index 2 is NaN.
\<close>

theorem zero_sum_tables:
  assumes "ws \<noteq> []" and "total ieee ws = Fin 0" and "0 < n"
  shows "(\<exists>s. InitWithSeed ieee R ws sd = Inr s \<and> length (probability s) = length ws) \<and>
         length (normalize ieee ws) = length ws \<and>
         (\<forall>p \<in> set (normalize ieee ws). p = NaN \<or> p = PInf \<or> p = NInf) \<and>
         normalize ieee (replicate n (Fin 0)) = replicate n NaN \<and>
         InitWithSeed ieee R (replicate n (Fin 0)) sd =
           Inr \<lparr>probability = replicate n (Fin 1), alias_tab = replicate n 0, seed = sd,
                rand = New R sd\<rparr> \<and>
         normalize ieee [Fin 1, Fin (- 1), Fin 0] = [PInf, NInf, NaN] \<and>
         InitWithSeed ieee R [Fin 1, Fin (- 1), Fin 0] sd =
           Inr \<lparr>probability = [Fin 1, Fin 1, NaN], alias_tab = [0, 0, 0], seed = sd,
                rand = New R sd\<rparr>"
proof -
  have a: "\<exists>s. InitWithSeed ieee R ws sd = Inr s \<and> length (probability s) = length ws"
    using InitWithSeed_ok[OF assms(1), of ieee R sd] by auto
  have b: "length (normalize ieee ws) = length ws"
    by (simp add: normalize_def)
  have c: "\<forall>p \<in> set (normalize ieee ws). p = NaN \<or> p = PInf \<or> p = NInf"
    using normalize_zero_sum[OF assms(2)] by blast
  have d: "normalize ieee [Fin 1, Fin (- 1), Fin 0] = [PInf, NInf, NaN]"
    by (simp add: normalize_def total_def ieee_fields rne_numerals)
  from a b c d normalize_zeros[of n] run_zeros[OF assms(3), of R sd] run_mixed[of R sd]
  show ?thesis by blast
qed

theorem zero_sum_tables_witness:
  "[Fin 1, Fin (- 1), Fin 0] \<noteq> [] \<and> total ieee [Fin 1, Fin (- 1), Fin 0] = Fin 0 \<and>
   (\<exists>s. InitWithSeed ieee counter [Fin 1, Fin (- 1), Fin 0] 7 = Inr s \<and>
        length (probability s) = length [Fin 1, Fin (- 1), Fin 0]) \<and>
   length (normalize ieee [Fin 1, Fin (- 1), Fin 0]) = length [Fin 1, Fin (- 1), Fin 0] \<and>
   normalize ieee (replicate 3 (Fin 0)) = replicate 3 NaN \<and>
   InitWithSeed ieee counter (replicate 3 (Fin 0)) 7 =
     Inr \<lparr>probability = replicate 3 (Fin 1), alias_tab = replicate 3 0, seed = 7,
          rand = New counter 7\<rparr> \<and>
   normalize ieee [Fin 1, Fin (- 1), Fin 0] = [PInf, NInf, NaN] \<and>
   InitWithSeed ieee counter [Fin 1, Fin (- 1), Fin 0] 7 =
     Inr \<lparr>probability = [Fin 1, Fin 1, NaN], alias_tab = [0, 0, 0], seed = 7,
          rand = New counter 7\<rparr>"
proof -
  have t: "total ieee [Fin 1, Fin (- 1), Fin 0] = Fin 0"
    by (simp add: total_def ieee_fields rne_numerals)
  from zero_sum_tables[of "[Fin 1, Fin (- 1), Fin 0]" 3 counter 7, OF _ t] t
  show ?thesis by simp
qed

text \<open>
  The claim C9 as stated fails for its own example: for the weights \<open>0.0, 0.0\<close> the
  working weights are NaN, but the table returned is \<open>[1.0, 1.0]\<close> with aliases
  \<open>[0, 0]\<close>: no NaN is in it, and a draw returns the column drawn.
\<close>

theorem zero_weights_counterexample:
  "normalize ieee [Fin 0, Fin 0] = [NaN, NaN] \<and>
   InitWithSeed ieee counter [Fin 0, Fin 0] 7 =
     Inr \<lparr>probability = [Fin 1, Fin 1], alias_tab = [0, 0], seed = 7,
          rand = \<lparr>src = 7, drawn = []\<rparr>\<rparr> \<and>
   NaN \<notin> set [Fin 1, Fin 1] \<and>
   Next ieee counter
     \<lparr>probability = [Fin 1, Fin 1], alias_tab = [0, 0], seed = 7,
      rand = \<lparr>src = 7, drawn = []\<rparr>\<rparr> =
   Inr (1, \<lparr>probability = [Fin 1, Fin 1], alias_tab = [0, 0], seed = 7,
            rand = \<lparr>src = 9, drawn = [DrawIntn 2, DrawFloat64]\<rparr>\<rparr>)"
proof -
  have "Next ieee counter
     \<lparr>probability = [Fin 1, Fin 1], alias_tab = [0, 0], seed = 7,
      rand = \<lparr>src = 7, drawn = []\<rparr>\<rparr> =
   Inr (1, \<lparr>probability = [Fin 1, Fin 1], alias_tab = [0, 0], seed = 7,
            rand = \<lparr>src = 9, drawn = [DrawIntn 2, DrawFloat64]\<rparr>\<rparr>)"
    using Next_result[of "\<lparr>probability = [Fin 1, Fin 1], alias_tab = [0, 0], seed = 7,
      rand = \<lparr>src = 7, drawn = []\<rparr>\<rparr>" counter 1 8 "Fin 0" 9 ieee]
    by (simp add: counter_def ieee_fields lt64_def)
  moreover have r: "\<And>x :: float64. replicate 2 x = [x, x]"
    and r': "replicate 2 (0 :: int) = [0, 0]"
    by (simp_all add: numeral_2_eq_2)
  moreover have "New counter 7 = \<lparr>src = 7, drawn = []\<rparr>"
    by (simp add: New_def counter_def)
  ultimately show ?thesis
    using normalize_zeros[of 2] run_zeros[of 2 counter 7] by simp
qed

end
